theory Spec2Isabelle
  imports Main "HOL-Library.Word"
begin

unbundle bit_operations_syntax

text \<open>
  A model of the XCF reader of \<^verbatim>\<open>xcf.go\<close> (\<^verbatim>\<open>Decode\<close>, \<^verbatim>\<open>loadLayer\<close>,
  \<^verbatim>\<open>readImageData\<close>, \<^verbatim>\<open>decodeRLE\<close>, \<^verbatim>\<open>readString\<close>, \<^verbatim>\<open>GetLayerByName\<close>) and the
  properties C1 to C10 of its specification. The first part follows the source function by
  function; the second gives the formats in the words of the specification and the data
  of the examples; the third holds the proofs.
\<close>

section \<open>Byte streams\<close>

text \<open>
  The decoder of \<^verbatim>\<open>xcf.go\<close> reads from an \<^verbatim>\<open>io.ReadSeeker\<close>. The only reader the
  package itself constructs is the \<^verbatim>\<open>*os.File\<close> of \<^verbatim>\<open>LoadFromFile\<close>, so the stream is
  modelled as a regular file: a fixed byte content and a cursor. Go's \<^verbatim>\<open>int\<close> is taken to be
  64 bits wide; the quantities held in it here are non-negative and stay far below
  \<open>2 ^ 63\<close>, so they are natural numbers in the model. Running out of memory is not
  modelled; the length limit of \<^verbatim>\<open>make\<close> is.
\<close>

type_synonym byte = "8 word"
type_synonym u32 = "32 word"

record reader =
  content :: "byte list"
  pos :: nat

text \<open>
  Errors are values. \<^verbatim>\<open>errors.New(prefix + err.Error())\<close> is \<open>Wrapped prefix err\<close>; the
  \<^verbatim>\<open>fmt.Errorf\<close> messages carry the offending value.
\<close>

datatype error =
    EOF
  | ErrUnexpectedEOF
  | Wrapped string error
  | WrongMagicID "byte list"
  | UnsupportedFileVersion "byte list"
  | UnsupportedColorFormat u32
  | UnsupportedCompression byte
  | UnsupportedLayerColorFormat u32

text \<open>A call returns a value, returns an error, or stops with a run-time panic.\<close>

datatype 'a outcome = Ok 'a | Err error | Panic

text \<open>
  \<^verbatim>\<open>(*os.File).Read(p)\<close> with \<open>n = len(p)\<close>: nothing is read and no error is reported for an
  empty \<open>p\<close>; at the end of the file the error is \<^verbatim>\<open>io.EOF\<close>; otherwise the bytes that are
  there, at most \<open>n\<close> and at most \<open>2 ^ 30\<close> in one call, are returned with a nil error. A
  short read is not an error.
\<close>

definition Read :: "reader \<Rightarrow> nat \<Rightarrow> (error + byte list) \<times> reader" where
  "Read r n =
     (if n = 0 then (Inr [], r)
      else if length (content r) \<le> pos r then (Inl EOF, r)
      else (let got = take (if int n \<le> 2 ^ 30 then n else nat (2 ^ 30)) (drop (pos r) (content r))
            in (Inr got, r\<lparr>pos := pos r + length got\<rparr>)))"

text \<open>Storing the bytes a read returned at the start of the slice \<open>xs[lo:]\<close>.\<close>

definition overwrite :: "'a list \<Rightarrow> nat \<Rightarrow> 'a list \<Rightarrow> 'a list" where
  "overwrite xs lo got = take lo xs @ got @ drop (lo + length got) xs"

section \<open>The run-length decoder\<close>

text \<open>
  \<^verbatim>\<open>for i := 0; i < count; i++ { dest[next] = value; next++ }\<close>. The slice \<open>dest\<close> has length
  \<open>n\<close>; an index at or beyond \<open>n\<close> panics, here \<open>None\<close>.
\<close>

fun fill :: "byte list \<Rightarrow> nat \<Rightarrow> nat \<Rightarrow> nat \<Rightarrow> byte \<Rightarrow> (byte list \<times> nat) option" where
  "fill dest n next 0 v = Some (dest, next)"
| "fill dest n next (Suc c) v =
     (if next < n then fill (dest[next := v]) n (next + 1) c v else None)"

text \<open>
  \<^verbatim>\<open>decodeRLE(encoded, dest)\<close>. The slice \<open>dest\<close> is given by its backing array (the list
  \<open>dest\<close>, whose length is the capacity) and its length \<open>n\<close>: the caller passes
  \<^verbatim>\<open>buffer[:destByteCount]\<close>. The slice expression \<^verbatim>\<open>dest[next : next+count]\<close> panics only
  beyond the capacity. \<open>buffer\<close> is the local 4-byte array.
\<close>

definition remaining :: "reader \<Rightarrow> nat" where
  "remaining r = length (content r) - pos r"

lemma Read_remaining_le: "Read r n = (x, r') \<Longrightarrow> remaining r' \<le> remaining r"
  by (auto simp: Read_def Let_def remaining_def split: if_splits)

lemma Read_one_remaining: "Read r (Suc 0) = (Inr got, r') \<Longrightarrow> remaining r' < remaining r"
  by (auto simp: Read_def Let_def remaining_def min_def split: if_splits)

lemma Read_chain2:
  "Read r (Suc 0) = (Inr got, r1) \<Longrightarrow> Read r1 n = (x, r2) \<Longrightarrow> remaining r2 < remaining r"
  using Read_one_remaining [of r got r1] Read_remaining_le [of r1 n x r2] by simp

lemma Read_chain3:
  "Read r (Suc 0) = (Inr got, r1) \<Longrightarrow> Read r1 n = (x, r2) \<Longrightarrow> Read r2 m = (y, r3) \<Longrightarrow>
   remaining r3 < remaining r"
  using Read_chain2 [of r got r1 n x r2] Read_remaining_le [of r2 m y r3] by simp

function decodeRLE_loop ::
  "reader \<Rightarrow> byte list \<Rightarrow> nat \<Rightarrow> byte list \<Rightarrow> nat \<Rightarrow> (byte list \<times> reader) outcome" where
  "decodeRLE_loop r buffer n dest next =
    (if next < n then
       (case Read r 1 of
          (Inl e, r1) \<Rightarrow> Err e
        | (Inr got0, r1) \<Rightarrow>
           (let buffer1 = overwrite buffer 0 got0; op = buffer1 ! 0 in
            if op \<le> 126 then
              (case Read r1 1 of
                 (Inl e, r2) \<Rightarrow> Err e
               | (Inr got1, r2) \<Rightarrow>
                  (let buffer2 = overwrite buffer1 1 got1;
                       count = unat op + 1;
                       val = buffer2 ! 1
                   in case fill dest n next count val of
                        None \<Rightarrow> Panic
                      | Some (dest', next') \<Rightarrow> decodeRLE_loop r2 buffer2 n dest' next'))
            else if op = 127 then
              (case Read r1 3 of
                 (Inl e, r2) \<Rightarrow> Err e
               | (Inr got1, r2) \<Rightarrow>
                  (let buffer2 = overwrite buffer1 1 got1;
                       count = unat (buffer2 ! 1) * 256 + unat (buffer2 ! 2);
                       val = buffer2 ! 3
                   in case fill dest n next count val of
                        None \<Rightarrow> Panic
                      | Some (dest', next') \<Rightarrow> decodeRLE_loop r2 buffer2 n dest' next'))
            else if op = 128 then
              (case Read r1 2 of
                 (Inl e, r2) \<Rightarrow> Err e
               | (Inr got1, r2) \<Rightarrow>
                  (let buffer2 = overwrite buffer1 1 got1;
                       count = unat (buffer2 ! 1) * 256 + unat (buffer2 ! 2)
                   in if length dest < next + count then Panic
                      else (case Read r2 count of
                              (Inl e, r3) \<Rightarrow> Err e
                            | (Inr got2, r3) \<Rightarrow>
                                decodeRLE_loop r3 buffer2 n (overwrite dest next got2) (next + count))))
            else
              (let count = 256 - unat op
               in if length dest < next + count then Panic
                  else (case Read r1 count of
                          (Inl e, r2) \<Rightarrow> Err e
                        | (Inr got1, r2) \<Rightarrow>
                            decodeRLE_loop r2 buffer1 n (overwrite dest next got1) (next + count)))))
     else Ok (dest, r))"
  by pat_completeness auto
termination
proof (relation "measure (\<lambda>(r, buffer, n, dest, next). remaining r)", goal_cases)
  case 1
  show ?case by simp
next
  case 2
  then show ?case
    by (auto dest!: sym [of "(_, _)" "Read _ _"] intro: Read_chain2 Read_chain3)
next
  case 3
  then show ?case
    by (auto dest!: sym [of "(_, _)" "Read _ _"] intro: Read_chain2 Read_chain3)
next
  case 4
  then show ?case
    by (auto dest!: sym [of "(_, _)" "Read _ _"] intro: Read_chain2 Read_chain3)
next
  case 5
  then show ?case
    by (auto dest!: sym [of "(_, _)" "Read _ _"] intro: Read_chain2 Read_chain3)
qed

declare decodeRLE_loop.simps [simp del]

definition decodeRLE :: "reader \<Rightarrow> byte list \<Rightarrow> nat \<Rightarrow> (byte list \<times> reader) outcome" where
  "decodeRLE encoded dest n = decodeRLE_loop encoded [0, 0, 0, 0] n dest 0"

section \<open>Reading from the stream\<close>

text \<open>
  \<^verbatim>\<open>binary.BigEndian.Uint32\<close> of a 4-byte slice.
\<close>

definition be32 :: "byte list \<Rightarrow> u32" where
  "be32 b = ucast (b ! 3) OR push_bit 8 (ucast (b ! 2)) OR push_bit 16 (ucast (b ! 1)) OR
     push_bit 24 (ucast (b ! 0))"

text \<open>
  \<^verbatim>\<open>io.ReadFull(r, buf)\<close> with \<open>k = len(buf)\<close>: all \<open>k\<close> bytes, or \<^verbatim>\<open>io.EOF\<close> when none is
  left, or \<^verbatim>\<open>io.ErrUnexpectedEOF\<close> when fewer than \<open>k\<close> are (they are consumed).
  \<^verbatim>\<open>binary.Read(r, order, &v)\<close> is \<^verbatim>\<open>io.ReadFull\<close> of the encoded size of \<open>v\<close> followed by
  the decoding of the bytes; on an error \<open>v\<close> keeps its value.
\<close>

definition ReadFull :: "reader \<Rightarrow> nat \<Rightarrow> (error + byte list) \<times> reader" where
  "ReadFull r k =
     (if k \<le> remaining r
      then (Inr (take k (drop (pos r) (content r))), r\<lparr>pos := pos r + k\<rparr>)
      else if remaining r = 0 then (Inl EOF, r)
      else (Inl ErrUnexpectedEOF, r\<lparr>pos := length (content r)\<rparr>))"

text \<open>
  \<^verbatim>\<open>io.CopyN(ioutil.Discard, r, n)\<close>: \<open>n\<close> bytes are skipped; when fewer are left they
  are all consumed and the error is \<^verbatim>\<open>io.EOF\<close>.
\<close>

definition CopyN_Discard :: "reader \<Rightarrow> nat \<Rightarrow> error option \<times> reader" where
  "CopyN_Discard r n =
     (if n \<le> remaining r then (None, r\<lparr>pos := pos r + n\<rparr>)
      else (Some EOF, r\<lparr>pos := max (pos r) (length (content r))\<rparr>))"

text \<open>
  \<^verbatim>\<open>r.Seek(int64(offset), 0)\<close> with an unsigned 32-bit offset: a file accepts every
  non-negative position, also one behind its end.
\<close>

definition Seek :: "reader \<Rightarrow> nat \<Rightarrow> reader" where
  "Seek r offset = r\<lparr>pos := offset\<rparr>"

section \<open>Headers and constants\<close>

record fileHeader =
  fh_MagicID :: "byte list"
  fh_Version :: "byte list"
  fh_VersionTerminator :: byte
  fh_Width :: u32
  fh_Height :: u32
  fh_ColorFormat :: u32

definition decode_fileHeader :: "byte list \<Rightarrow> fileHeader" where
  "decode_fileHeader bs =
     \<lparr>fh_MagicID = take 9 bs, fh_Version = take 4 (drop 9 bs), fh_VersionTerminator = bs ! 13,
      fh_Width = be32 (take 4 (drop 14 bs)), fh_Height = be32 (take 4 (drop 18 bs)),
      fh_ColorFormat = be32 (take 4 (drop 22 bs))\<rparr>"

definition rgb :: u32 where "rgb = 0"
definition rgbNoAlpha :: u32 where "rgbNoAlpha = 0"
definition rgbAlpha :: u32 where "rgbAlpha = 1"

record propertyHeader =
  ph_MagicID :: u32
  ph_Length :: u32

definition decode_propertyHeader :: "byte list \<Rightarrow> propertyHeader" where
  "decode_propertyHeader bs = \<lparr>ph_MagicID = be32 (take 4 bs), ph_Length = be32 (take 4 (drop 4 bs))\<rparr>"

definition propEnd :: u32 where "propEnd = 0"
definition propColormap :: u32 where "propColormap = 1"
definition propOpacity :: u32 where "propOpacity = 6"
definition propVisible :: u32 where "propVisible = 8"
definition propOffsets :: u32 where "propOffsets = 15"
definition propCompression :: u32 where "propCompression = 17"

definition rleCompression :: byte where "rleCompression = 1"

record layerHeader =
  lh_Width :: u32
  lh_Height :: u32
  lh_ColorFormat :: u32

definition decode_layerHeader :: "byte list \<Rightarrow> layerHeader" where
  "decode_layerHeader bs =
     \<lparr>lh_Width = be32 (take 4 bs), lh_Height = be32 (take 4 (drop 4 bs)),
      lh_ColorFormat = be32 (take 4 (drop 8 bs))\<rparr>"

record hierarchyHeader =
  hh_Width :: u32
  hh_Height :: u32
  hh_BytesPerPixel :: u32
  hh_FirstLevelPointer :: u32

definition decode_hierarchyHeader :: "byte list \<Rightarrow> hierarchyHeader" where
  "decode_hierarchyHeader bs =
     \<lparr>hh_Width = be32 (take 4 bs), hh_Height = be32 (take 4 (drop 4 bs)),
      hh_BytesPerPixel = be32 (take 4 (drop 8 bs)),
      hh_FirstLevelPointer = be32 (take 4 (drop 12 bs))\<rparr>"

text \<open>The bytes of a string literal of the source.\<close>

definition bytes_of :: "string \<Rightarrow> byte list" where
  "bytes_of s = map (\<lambda>c. word_of_nat (of_char c)) s"

section \<open>Properties and strings\<close>

definition skipProperty :: "reader \<Rightarrow> propertyHeader \<Rightarrow> error option \<times> reader" where
  "skipProperty r header =
     (case CopyN_Discard r (unat (ph_Length header)) of
        (Some err, r') \<Rightarrow> (Some (Wrapped ''read XCF: unable to skip property: '' err), r')
      | (None, r') \<Rightarrow> (None, r'))"

text \<open>
  \<^verbatim>\<open>readString\<close>. A Go string is a sequence of bytes. The \<open>length\<close> bytes are fetched by
  one \<^verbatim>\<open>Read\<close> into a zeroed slice.
\<close>

definition readString :: "reader \<Rightarrow> error + (byte list \<times> reader)" where
  "readString r =
     (case ReadFull r 4 of
        (Inl err, r1) \<Rightarrow> Inl (Wrapped ''reading string length: '' err)
      | (Inr lb, r1) \<Rightarrow>
         (let len = be32 lb in
          if len = 0 then Inr ([], r1)
          else (let data = replicate (unat len) 0 in
                case Read r1 (unat len) of
                  (Inl err, r2) \<Rightarrow> Inl (Wrapped ''reading string: '' err)
                | (Inr got, r2) \<Rightarrow> Inr (take (unat (len - 1)) (overwrite data 0 got), r2))))"

lemma ReadFull_remaining_le: "ReadFull r k = (x, r') \<Longrightarrow> remaining r' \<le> remaining r"
  by (auto simp: ReadFull_def remaining_def split: if_splits)

lemma ReadFull_Inr_remaining:
  "ReadFull r k = (Inr bs, r') \<Longrightarrow> 0 < k \<Longrightarrow> remaining r' < remaining r"
  by (auto simp: ReadFull_def remaining_def split: if_splits)

lemma CopyN_Discard_remaining_le: "CopyN_Discard r n = (x, r') \<Longrightarrow> remaining r' \<le> remaining r"
  by (auto simp: CopyN_Discard_def remaining_def split: if_splits)

lemma skipProperty_remaining_le: "skipProperty r h = (x, r') \<Longrightarrow> remaining r' \<le> remaining r"
  by (auto simp: skipProperty_def dest: CopyN_Discard_remaining_le split: prod.splits option.splits)

lemma term_ReadFull8: "(Inr bs, r') = ReadFull r 8 \<Longrightarrow> remaining r' < remaining r"
  using ReadFull_Inr_remaining [of r 8 bs r'] by simp

lemma term_ReadFull4: "(x, r') = ReadFull r 4 \<Longrightarrow> remaining r' \<le> remaining r"
  using ReadFull_remaining_le [of r 4 x r'] by simp

lemma term_ReadFull4_Inr: "(Inr bs, r') = ReadFull r 4 \<Longrightarrow> remaining r' < remaining r"
  using ReadFull_Inr_remaining [of r 4 bs r'] by simp

lemma term_Read: "(x, r') = Read r n \<Longrightarrow> remaining r' \<le> remaining r"
  using Read_remaining_le [of r n x r'] by simp

lemma term_CopyN: "(x, r') = CopyN_Discard r n \<Longrightarrow> remaining r' \<le> remaining r"
  using CopyN_Discard_remaining_le [of r n x r'] by simp

lemma term_skipProperty: "(x, r') = skipProperty r h \<Longrightarrow> remaining r' \<le> remaining r"
  using skipProperty_remaining_le [of r h x r'] by simp

text \<open>
  The property loop of \<^verbatim>\<open>Decode\<close>. \<open>finalErr\<close> is the named result: a failed skip of an
  unknown property assigns it and the loop goes on. \<open>Inl\<close> is a \<^verbatim>\<open>return\<close> from \<^verbatim>\<open>Decode\<close>
  with that error, \<open>Inr\<close> the \<^verbatim>\<open>break\<close>.
\<close>

function Decode_props :: "reader \<Rightarrow> error option \<Rightarrow> error + (reader \<times> error option)" where
  "Decode_props r finalErr =
     (case ReadFull r 8 of
        (Inl err, r1) \<Rightarrow> Inl (Wrapped ''read XCF: error reading property header: '' err)
      | (Inr hb, r1) \<Rightarrow>
         (let propHeader = decode_propertyHeader hb in
          if ph_MagicID propHeader = propEnd then Inr (r1, finalErr)
          else if ph_MagicID propHeader = propColormap then
            (case ReadFull r1 4 of
               (Inl err, r2) \<Rightarrow>
                 Inl (Wrapped ''read XCF: unable to read number of colors in color map: '' err)
             | (Inr cb, r2) \<Rightarrow>
                 (let colorCount = be32 cb in
                  case CopyN_Discard r2 (unat (3 * colorCount)) of
                    (Some err, r3) \<Rightarrow> Inl (Wrapped ''read XCF: error skipping color map: '' err)
                  | (None, r3) \<Rightarrow> Decode_props r3 finalErr))
          else if ph_MagicID propHeader = propCompression then
            (case Read r1 1 of
               (Inl err, r2) \<Rightarrow> Inl (Wrapped ''read XCF: error reading compression: '' err)
             | (Inr got, r2) \<Rightarrow>
                 (let compression = overwrite [0] 0 got in
                  if compression ! 0 \<noteq> rleCompression
                  then Inl (UnsupportedCompression (compression ! 0))
                  else Decode_props r2 finalErr))
          else
            (case skipProperty r1 propHeader of
               (Some err, r2) \<Rightarrow>
                 Decode_props r2 (Some (Wrapped ''unable to skip property: '' err))
             | (None, r2) \<Rightarrow> Decode_props r2 finalErr)))"
  by pat_completeness auto
termination
  by (relation "measure (\<lambda>(r, finalErr). remaining r)")
     (auto dest!: term_ReadFull8 term_ReadFull4 term_Read term_CopyN term_skipProperty)

declare Decode_props.simps [simp del]

text \<open>
  The property loop of \<^verbatim>\<open>loadLayer\<close>, over the variables it assigns: \<open>layer.Visible\<close>,
  \<open>layer.Opacity\<close>, \<open>x\<close> and \<open>y\<close> (the two \<^verbatim>\<open>int32\<close> as their 32 bits).
\<close>

function loadLayer_props ::
  "reader \<Rightarrow> bool \<Rightarrow> byte \<Rightarrow> u32 \<Rightarrow> u32 \<Rightarrow> error + ((bool \<times> byte \<times> u32 \<times> u32) \<times> reader)" where
  "loadLayer_props r visible opacity x y =
     (case ReadFull r 8 of
        (Inl err, r1) \<Rightarrow> Inl err
      | (Inr hb, r1) \<Rightarrow>
         (let propHeader = decode_propertyHeader hb in
          if ph_MagicID propHeader = propEnd then Inr ((visible, opacity, x, y), r1)
          else if ph_MagicID propHeader = propOffsets then
            (case ReadFull r1 4 of
               (Inl err, r2) \<Rightarrow> Inl err
             | (Inr xb, r2) \<Rightarrow>
                 (case ReadFull r2 4 of
                    (Inl err, r3) \<Rightarrow> Inl err
                  | (Inr yb, r3) \<Rightarrow> loadLayer_props r3 visible opacity (be32 xb) (be32 yb)))
          else if ph_MagicID propHeader = propVisible then
            (case ReadFull r1 4 of
               (Inl err, r2) \<Rightarrow> Inl err
             | (Inr vb, r2) \<Rightarrow> loadLayer_props r2 (be32 vb \<noteq> 0) opacity x y)
          else if ph_MagicID propHeader = propOpacity then
            (case ReadFull r1 4 of
               (Inl err, r2) \<Rightarrow> Inl err
             | (Inr ob, r2) \<Rightarrow> loadLayer_props r2 visible (ucast (be32 ob)) x y)
          else
            (case skipProperty r1 propHeader of
               (Some err, r2) \<Rightarrow> Inl err
             | (None, r2) \<Rightarrow> loadLayer_props r2 visible opacity x y)))"
  by pat_completeness auto
termination
  by (relation "measure (\<lambda>(r, visible, opacity, x, y). remaining r)")
     (auto dest!: term_ReadFull8 term_ReadFull4 term_skipProperty)

declare loadLayer_props.simps [simp del]

text \<open>The level pointers behind the hierarchy header are read up to the 0 and ignored.\<close>

function readImageData_levels :: "reader \<Rightarrow> error + reader" where
  "readImageData_levels r =
     (case ReadFull r 4 of
        (Inl err, r1) \<Rightarrow> Inl err
      | (Inr pb, r1) \<Rightarrow> if be32 pb = 0 then Inr r1 else readImageData_levels r1)"
  by pat_completeness auto
termination
  by (relation "measure remaining") (auto dest!: term_ReadFull4_Inr)

declare readImageData_levels.simps [simp del]

section \<open>Images\<close>

text \<open>
  \<^verbatim>\<open>image.Rectangle\<close>, \<^verbatim>\<open>image.Rect\<close>, \<^verbatim>\<open>image.RGBA\<close>, \<^verbatim>\<open>image.NewRGBA\<close> and
  \<^verbatim>\<open>(*image.RGBA).RGBAAt\<close> of Go's standard library, through which a layer shows its pixels.
  \<^verbatim>\<open>NewRGBA\<close> panics when \<open>4 * w * h\<close> does not fit an \<^verbatim>\<open>int\<close>, and so does its \<^verbatim>\<open>make\<close>
  when the slice is larger than \<open>maxAlloc\<close>, the allocation limit of the run-time system
  (\<open>2 ^ 48\<close> bytes on the 64-bit platforms). The field \<^verbatim>\<open>Rect\<close>
  of \<^verbatim>\<open>image.RGBA\<close> is \<open>Bounds\<close> here.
\<close>

record Rectangle =
  MinX :: int
  MinY :: int
  MaxX :: int
  MaxY :: int

definition Rect :: "int \<Rightarrow> int \<Rightarrow> int \<Rightarrow> int \<Rightarrow> Rectangle" where
  "Rect x0 y0 x1 y1 =
     \<lparr>MinX = min x0 x1, MinY = min y0 y1, MaxX = max x0 x1, MaxY = max y0 y1\<rparr>"

record RGBA =
  Pix :: "byte list"
  Stride :: nat
  Bounds :: Rectangle

definition maxAlloc :: int where
  "maxAlloc = 2 ^ 48"

definition NewRGBA :: "Rectangle \<Rightarrow> RGBA option" where
  "NewRGBA r =
     (let w = MaxX r - MinX r; h = MaxY r - MinY r in
      if w < 0 \<or> h < 0 \<or> 2 ^ 63 \<le> 4 * w * h \<or> maxAlloc < 4 * w * h then None
      else Some \<lparr>Pix = replicate (nat (4 * w * h)) 0, Stride = nat (4 * w), Bounds = r\<rparr>)"

definition PixOffset :: "RGBA \<Rightarrow> int \<Rightarrow> int \<Rightarrow> nat" where
  "PixOffset p x y = nat (y - MinY (Bounds p)) * Stride p + nat (x - MinX (Bounds p)) * 4"

definition RGBAAt :: "RGBA \<Rightarrow> int \<Rightarrow> int \<Rightarrow> byte \<times> byte \<times> byte \<times> byte" where
  "RGBAAt p x y =
     (if MinX (Bounds p) \<le> x \<and> x < MaxX (Bounds p) \<and> MinY (Bounds p) \<le> y \<and> y < MaxY (Bounds p)
      then (let i = PixOffset p x y in (Pix p ! i, Pix p ! (i + 1), Pix p ! (i + 2), Pix p ! (i + 3)))
      else (0, 0, 0, 0))"

section \<open>Layers and the canvas\<close>

record Layer =
  Image :: RGBA
  Name :: "byte list"
  Visible :: bool
  Opacity :: byte

record Canvas =
  Width :: u32
  Height :: u32
  Layers :: "Layer list"

section \<open>Tiles\<close>

text \<open>
  The tile grid of \<^verbatim>\<open>readImageData\<close>. \<^verbatim>\<open>int(layerHeader.Width+63) / 64\<close> adds in
  \<^verbatim>\<open>uint32\<close> and converts afterwards; \<^verbatim>\<open>int(layerHeader.Width) % 64\<close> converts first.
\<close>

record tileGrid =
  tileCountX :: nat
  tileCountY :: nat
  rightMostTileWidth :: nat
  bottomMostTileHeight :: nat

definition tileGrid_of :: "layerHeader \<Rightarrow> tileGrid" where
  "tileGrid_of layerHeader =
     \<lparr>tileCountX = unat (lh_Width layerHeader + 63) div 64,
      tileCountY = unat (lh_Height layerHeader + 63) div 64,
      rightMostTileWidth =
        (if unat (lh_Width layerHeader) mod 64 = 0 then 64 else unat (lh_Width layerHeader) mod 64),
      bottomMostTileHeight =
        (if unat (lh_Height layerHeader) mod 64 = 0 then 64
         else unat (lh_Height layerHeader) mod 64)\<rparr>"

text \<open>Width and height of the tile in column \<open>tileX\<close> and row \<open>tileY\<close>.\<close>

definition tileW :: "tileGrid \<Rightarrow> nat \<Rightarrow> nat" where
  "tileW g tileX = (if tileX = tileCountX g - 1 then rightMostTileWidth g else 64)"

definition tileH :: "tileGrid \<Rightarrow> nat \<Rightarrow> nat" where
  "tileH g tileY = (if tileY = tileCountY g - 1 then bottomMostTileHeight g else 64)"

text \<open>
  The loop over \<open>x\<close> of one scanline of a tile, \<open>k\<close> iterations from \<open>x\<close>. \<open>base\<close> is where
  the slice \<^verbatim>\<open>line := rgba.Pix[rgba.Stride*y:]\<close> starts in \<open>pix\<close>, \<open>n\<close> is \<open>len(data)\<close>. The
  loop for a layer with alpha reads the fourth byte of the pixel from the fourth plane,
  the loop for a layer without writes 255; they do not differ otherwise. An index out of
  range panics (\<open>None\<close>).
\<close>

fun tile_line ::
  "bool \<Rightarrow> byte list \<Rightarrow> nat \<Rightarrow> nat \<Rightarrow> nat \<Rightarrow> nat \<Rightarrow> nat \<Rightarrow> byte list \<Rightarrow> nat \<Rightarrow>
   (byte list \<times> nat) option" where
  "tile_line alpha data n ofs base x 0 pix dataIndex = Some (pix, dataIndex)"
| "tile_line alpha data n ofs base x (Suc k) pix dataIndex =
     (if base + x * 4 + 3 < length pix \<and> dataIndex + (if alpha then 3 else 2) * ofs < n
      then tile_line alpha data n ofs base (x + 1) k
             (pix[base + x * 4 := data ! dataIndex,
                  base + x * 4 + 1 := data ! (dataIndex + ofs),
                  base + x * 4 + 2 := data ! (dataIndex + 2 * ofs),
                  base + x * 4 + 3 := (if alpha then data ! (dataIndex + 3 * ofs) else 255)])
             (dataIndex + 1)
      else None)"

text \<open>The loop over \<open>y\<close> of a tile, \<open>k\<close> iterations from \<open>y\<close>.\<close>

fun tile_lines ::
  "u32 \<Rightarrow> byte list \<Rightarrow> nat \<Rightarrow> nat \<Rightarrow> nat \<Rightarrow> nat \<Rightarrow> nat \<Rightarrow> nat \<Rightarrow> byte list \<Rightarrow> nat \<Rightarrow>
   byte list option" where
  "tile_lines colorFormat data n stride left w y 0 pix dataIndex = Some pix"
| "tile_lines colorFormat data n stride left w y (Suc k) pix dataIndex =
     (if length pix < stride * y then None
      else if colorFormat = rgbAlpha then
        (case tile_line True data n (n div 4) (stride * y) left w pix dataIndex of
           None \<Rightarrow> None
         | Some (pix', dataIndex') \<Rightarrow>
             tile_lines colorFormat data n stride left w (y + 1) k pix' dataIndex')
      else if colorFormat = rgbNoAlpha then
        (case tile_line False data n (n div 3) (stride * y) left w pix dataIndex of
           None \<Rightarrow> None
         | Some (pix', dataIndex') \<Rightarrow>
             tile_lines colorFormat data n stride left w (y + 1) k pix' dataIndex')
      else tile_lines colorFormat data n stride left w (y + 1) k pix dataIndex)"

text \<open>
  One tile: the scratch \<open>buffer\<close> is cut to the tile's byte count, filled by \<open>decodeRLE\<close>
  from the current position of the stream, and scattered into \<open>pix\<close>.
\<close>

definition readTile ::
  "u32 \<Rightarrow> nat \<Rightarrow> nat \<Rightarrow> tileGrid \<Rightarrow> nat \<Rightarrow> nat \<Rightarrow> reader \<Rightarrow> byte list \<Rightarrow> byte list \<Rightarrow>
   (reader \<times> byte list \<times> byte list) outcome" where
  "readTile colorFormat bytesPerPixel stride g tileY tileX r buffer pix =
     (let left = tileX * 64; top = tileY * 64;
          w = tileW g tileX; h = tileH g tileY;
          destByteCount = w * h * bytesPerPixel
      in if length buffer < destByteCount then Panic
         else (case decodeRLE r buffer destByteCount of
                 Err err \<Rightarrow> Err err
               | Panic \<Rightarrow> Panic
               | Ok (buffer', r') \<Rightarrow>
                  (case tile_lines colorFormat buffer' destByteCount stride left w top h pix 0 of
                     None \<Rightarrow> Panic
                   | Some pix' \<Rightarrow> Ok (r', buffer', pix'))))"

text \<open>The loops over \<open>tileX\<close> (for \<open>k\<close> more columns) and over \<open>tileY\<close> (for \<open>k\<close> more rows).\<close>

fun readTiles_row ::
  "u32 \<Rightarrow> nat \<Rightarrow> nat \<Rightarrow> tileGrid \<Rightarrow> nat \<Rightarrow> nat \<Rightarrow> nat \<Rightarrow> reader \<Rightarrow> byte list \<Rightarrow> byte list \<Rightarrow>
   (reader \<times> byte list \<times> byte list) outcome" where
  "readTiles_row colorFormat bytesPerPixel stride g tileY tileX 0 r buffer pix = Ok (r, buffer, pix)"
| "readTiles_row colorFormat bytesPerPixel stride g tileY tileX (Suc k) r buffer pix =
     (case readTile colorFormat bytesPerPixel stride g tileY tileX r buffer pix of
        Err err \<Rightarrow> Err err
      | Panic \<Rightarrow> Panic
      | Ok (r', buffer', pix') \<Rightarrow>
          readTiles_row colorFormat bytesPerPixel stride g tileY (tileX + 1) k r' buffer' pix')"

fun readTiles ::
  "u32 \<Rightarrow> nat \<Rightarrow> nat \<Rightarrow> tileGrid \<Rightarrow> nat \<Rightarrow> nat \<Rightarrow> reader \<Rightarrow> byte list \<Rightarrow> byte list \<Rightarrow>
   (reader \<times> byte list \<times> byte list) outcome" where
  "readTiles colorFormat bytesPerPixel stride g tileY 0 r buffer pix = Ok (r, buffer, pix)"
| "readTiles colorFormat bytesPerPixel stride g tileY (Suc k) r buffer pix =
     (case readTiles_row colorFormat bytesPerPixel stride g tileY 0 (tileCountX g) r buffer pix of
        Err err \<Rightarrow> Err err
      | Panic \<Rightarrow> Panic
      | Ok (r', buffer', pix') \<Rightarrow>
          readTiles colorFormat bytesPerPixel stride g (tileY + 1) k r' buffer' pix')"

text \<open>
  \<^verbatim>\<open>readImageData\<close>. \<^verbatim>\<open>make([]uint32, tileCount+1)\<close> panics when the table is larger
  than \<open>maxAlloc\<close>; the table is read with one \<^verbatim>\<open>binary.Read\<close> and not looked at again.
\<close>

definition readImageData ::
  "reader \<Rightarrow> layerHeader \<Rightarrow> int \<Rightarrow> int \<Rightarrow> u32 \<Rightarrow> (RGBA \<times> reader) outcome" where
  "readImageData r layerHeader layerX layerY offset =
     (case ReadFull (Seek r (unat offset)) 16 of
        (Inl err, r1) \<Rightarrow> Err err
      | (Inr hb, r1) \<Rightarrow>
         (let header = decode_hierarchyHeader hb in
          case readImageData_levels r1 of
            Inl err \<Rightarrow> Err err
          | Inr r2 \<Rightarrow>
             (case ReadFull (Seek r2 (unat (hh_FirstLevelPointer header))) 4 of
                (Inl err, r3) \<Rightarrow> Err err
              | (Inr levelWidth, r3) \<Rightarrow>
                 (case ReadFull r3 4 of
                    (Inl err, r4) \<Rightarrow> Err err
                  | (Inr levelHeight, r4) \<Rightarrow>
                     (let g = tileGrid_of layerHeader;
                          tileCount = tileCountX g * tileCountY g
                      in if maxAlloc < 4 * (int tileCount + 1) then Panic
                         else case ReadFull r4 (4 * (tileCount + 1)) of
                           (Inl err, r5) \<Rightarrow> Err err
                         | (Inr tilePointers, r5) \<Rightarrow>
                            (case NewRGBA (Rect layerX layerY
                                     (layerX + int (unat (lh_Width layerHeader)))
                                     (layerY + int (unat (lh_Height layerHeader)))) of
                               None \<Rightarrow> Panic
                             | Some rgba \<Rightarrow>
                                (let buffer = replicate (unat (64 * 64 * hh_BytesPerPixel header)) 0
                                 in case readTiles (lh_ColorFormat layerHeader)
                                           (unat (hh_BytesPerPixel header)) (Stride rgba) g
                                           0 (tileCountY g) r5 buffer (Pix rgba) of
                                      Err err \<Rightarrow> Err err
                                    | Panic \<Rightarrow> Panic
                                    | Ok (r6, buffer', pix') \<Rightarrow>
                                        Ok (rgba\<lparr>Pix := pix'\<rparr>, r6))))))))"

definition loadLayer :: "reader \<Rightarrow> u32 \<Rightarrow> (Layer \<times> reader) outcome" where
  "loadLayer r offset =
     (case ReadFull (Seek r (unat offset)) 12 of
        (Inl err, r1) \<Rightarrow> Err err
      | (Inr hb, r1) \<Rightarrow>
         (let header = decode_layerHeader hb in
          if \<not> (lh_ColorFormat header = rgbAlpha \<or> lh_ColorFormat header = rgbNoAlpha)
          then Err (UnsupportedLayerColorFormat (lh_ColorFormat header))
          else (case readString r1 of
                  Inl err \<Rightarrow> Err err
                | Inr (name, r2) \<Rightarrow>
                   (case loadLayer_props r2 True 0 0 0 of
                      Inl err \<Rightarrow> Err err
                    | Inr ((visible, opacity, x, y), r3) \<Rightarrow>
                       (case ReadFull r3 4 of
                          (Inl err, r4) \<Rightarrow> Err err
                        | (Inr pixelPointer, r4) \<Rightarrow>
                           (case ReadFull r4 4 of
                              (Inl err, r5) \<Rightarrow> Err err
                            | (Inr maskPointer, r5) \<Rightarrow>
                               (case readImageData r5 header (sint x) (sint y) (be32 pixelPointer) of
                                  Err err \<Rightarrow> Err err
                                | Panic \<Rightarrow> Panic
                                | Ok (img, r6) \<Rightarrow>
                                    Ok (\<lparr>Image = img, Name = name, Visible = visible,
                                         Opacity = opacity\<rparr>, r6))))))))"

section \<open>Decode\<close>

text \<open>
  The loop that reads the layer pointers: \<^verbatim>\<open>binary.Read(r, endianness, &ptr)\<close> with its
  error dropped, so after a failed read \<open>ptr\<close> is what it was. The loop need not end:
  not returning is \<open>None\<close>.
\<close>

partial_function (option) Decode_layerPointers ::
  "reader \<Rightarrow> u32 \<Rightarrow> u32 list \<Rightarrow> (u32 list \<times> reader) option" where
  "Decode_layerPointers r ptr layerPointers =
     (case ReadFull r 4 of
        (Inl err, r1) \<Rightarrow>
          if ptr = 0 then Some (layerPointers, r1)
          else Decode_layerPointers r1 ptr (layerPointers @ [ptr])
      | (Inr pb, r1) \<Rightarrow>
          if be32 pb = 0 then Some (layerPointers, r1)
          else Decode_layerPointers r1 (be32 pb) (layerPointers @ [be32 pb]))"

fun Decode_layers :: "reader \<Rightarrow> u32 list \<Rightarrow> Layer list \<Rightarrow> (Layer list \<times> reader) outcome" where
  "Decode_layers r [] layers = Ok (layers, r)"
| "Decode_layers r (ptr # layerPointers) layers =
     (case loadLayer r ptr of
        Err err \<Rightarrow> Err (Wrapped ''read XCF: error reading layers: '' err)
      | Panic \<Rightarrow> Panic
      | Ok (layer, r') \<Rightarrow> Decode_layers r' layerPointers (layers @ [layer]))"

text \<open>
  \<^verbatim>\<open>Decode\<close>. \<open>Some (Err e)\<close> is the return of the zero canvas with the error \<open>e\<close>,
  \<open>Some (Ok c)\<close> the return of \<open>c\<close> with a nil error, \<open>None\<close> a call that does not return.
  The last \<^verbatim>\<open>return Canvas{...}, nil\<close> overwrites \<open>finalErr\<close>.
\<close>

definition Decode :: "reader \<Rightarrow> Canvas outcome option" where
  "Decode r =
     (case ReadFull r 26 of
        (Inl err, r1) \<Rightarrow> Some (Err (Wrapped ''read XCF: error reading header: '' err))
      | (Inr hb, r1) \<Rightarrow>
         (let header = decode_fileHeader hb in
          if fh_MagicID header \<noteq> bytes_of ''gimp xcf ''
          then Some (Err (WrongMagicID (fh_MagicID header)))
          else if fh_Version header \<noteq> bytes_of ''file''
          then Some (Err (UnsupportedFileVersion (fh_Version header)))
          else if fh_ColorFormat header \<noteq> rgb
          then Some (Err (UnsupportedColorFormat (fh_ColorFormat header)))
          else (case Decode_props r1 None of
                  Inl err \<Rightarrow> Some (Err err)
                | Inr (r2, finalErr) \<Rightarrow>
                   (case Decode_layerPointers r2 0 [] of
                      None \<Rightarrow> None
                    | Some (layerPointers, r3) \<Rightarrow>
                       (case Decode_layers r3 layerPointers [] of
                          Err err \<Rightarrow> Some (Err err)
                        | Panic \<Rightarrow> Some Panic
                        | Ok (layers, r4) \<Rightarrow>
                            Some (Ok \<lparr>Width = fh_Width header, Height = fh_Height header,
                                      Layers = layers\<rparr>))))))"

section \<open>GetLayerByName\<close>

text \<open>
  The loop over the indices of \<open>c.Layers\<close>, from \<open>i\<close>. The pointer \<^verbatim>\<open>&c.Layers[i]\<close> is the
  index \<open>i\<close>, \<^verbatim>\<open>nil\<close> is \<open>None\<close>. The method has a pointer receiver: the canvas after the call
  is returned with the result.
\<close>

function GetLayerByName_from :: "Canvas \<Rightarrow> byte list \<Rightarrow> nat \<Rightarrow> Canvas \<times> nat option" where
  "GetLayerByName_from c name i =
     (if i < length (Layers c)
      then (if Name (Layers c ! i) = name then (c, Some i) else GetLayerByName_from c name (i + 1))
      else (c, None))"
  by pat_completeness auto
termination
  by (relation "measure (\<lambda>(c, name, i). length (Layers c) - i)") auto

declare GetLayerByName_from.simps [simp del]

definition GetLayerByName :: "Canvas \<Rightarrow> byte list \<Rightarrow> Canvas \<times> nat option" where
  "GetLayerByName c name = GetLayerByName_from c name 0"

section \<open>The run-length format as the specification words it\<close>

text \<open>
  The specification (section 4.4) describes the encoded stream as a sequence of packets,
  one control byte each: \<open>0..126\<close> a short run (one value byte, repeated \<open>op + 1\<close>
  times), \<open>127\<close> a long run (a 2-byte big-endian count, one value byte), \<open>128\<close> a long
  literal (a 2-byte big-endian count, that many bytes), \<open>129..255\<close> a short literal
  (\<open>256 - op\<close> bytes). \<open>spec_encode\<close> is the byte form of a packet, \<open>spec_expand\<close> the
  output the specification assigns to it, \<open>spec_wf\<close> says that the packet is one the
  format allows. These three follow the specification, not the code; the theorems below
  compare \<open>decodeRLE\<close> with them.
\<close>

datatype rle_packet =
    ShortRun byte byte
  | LongRun byte byte byte
  | LongLiteral byte byte "byte list"
  | ShortLiteral byte "byte list"

fun spec_encode :: "rle_packet \<Rightarrow> byte list" where
  "spec_encode (ShortRun op v) = [op, v]"
| "spec_encode (LongRun hi lo v) = [127, hi, lo, v]"
| "spec_encode (LongLiteral hi lo bs) = [128, hi, lo] @ bs"
| "spec_encode (ShortLiteral op bs) = op # bs"

fun spec_expand :: "rle_packet \<Rightarrow> byte list" where
  "spec_expand (ShortRun op v) = replicate (unat op + 1) v"
| "spec_expand (LongRun hi lo v) = replicate (unat hi * 256 + unat lo) v"
| "spec_expand (LongLiteral hi lo bs) = bs"
| "spec_expand (ShortLiteral op bs) = bs"

fun spec_wf :: "rle_packet \<Rightarrow> bool" where
  "spec_wf (ShortRun op v) = (op \<le> 126)"
| "spec_wf (LongRun hi lo v) = True"
| "spec_wf (LongLiteral hi lo bs) = (length bs = unat hi * 256 + unat lo)"
| "spec_wf (ShortLiteral op bs) = (129 \<le> op \<and> length bs = 256 - unat op)"

definition is_run :: "rle_packet \<Rightarrow> bool" where
  "is_run p = (case p of ShortRun op v \<Rightarrow> True | LongRun hi lo v \<Rightarrow> True | _ \<Rightarrow> False)"

text \<open>The reader moved forward by \<open>k\<close> bytes, and the bytes it has not read yet.\<close>

definition advance :: "reader \<Rightarrow> nat \<Rightarrow> reader" where
  "advance r k = r\<lparr>pos := pos r + k\<rparr>"

definition unread :: "reader \<Rightarrow> byte list" where
  "unread r = drop (pos r) (content r)"

section \<open>The layer offset list as the specification words it\<close>

text \<open>
  The specification (section 4.2): "repeated big-endian 4-byte offsets until a zero
  sentinel; this is the ordered layer offset list, top-most first". \<open>words32\<close> cuts a byte
  sequence into its complete 4-byte big-endian words, \<open>layer_offsets\<close> keeps those in front
  of the first zero. Both follow the specification, not the code.
\<close>

fun words32 :: "byte list \<Rightarrow> u32 list" where
  "words32 (a # b # c # d # bs) = be32 [a, b, c, d] # words32 bs"
| "words32 bs = []"

definition layer_offsets :: "byte list \<Rightarrow> u32 list" where
  "layer_offsets bs = takeWhile (\<lambda>p. p \<noteq> 0) (words32 bs)"

section \<open>Layer properties as the specification words them\<close>

text \<open>
  The specification (sections 3 and 4.2): a property is a 4-byte type, a 4-byte length
  and a value, all big-endian; a layer's sequence of properties ends with the End
  property. Offsets carries two signed 4-byte integers, Visible a 4-byte flag, Opacity a
  4-byte value; any other property carries as many bytes as its length says. The first
  \<open>u32\<close> of the three known properties is the length field, which the loader does not
  look at. \<open>encode_property\<close> is the byte form, \<open>wf_property\<close> says that another property
  has none of the known types and a length that fits 32 bits; \<open>visible_values\<close>,
  \<open>opacity_values\<close> and \<open>offsets_values\<close> are the values of the properties of each kind,
  in the order of the sequence. These follow the specification, not the code.
\<close>

definition be32_bytes :: "u32 \<Rightarrow> byte list" where
  "be32_bytes w = [ucast (drop_bit 24 w), ucast (drop_bit 16 w), ucast (drop_bit 8 w), ucast w]"

datatype layer_property =
    OffsetsProp u32 u32 u32
  | VisibleProp u32 u32
  | OpacityProp u32 u32
  | OtherProp u32 "byte list"

fun encode_property :: "layer_property \<Rightarrow> byte list" where
  "encode_property (OffsetsProp len x y) =
     be32_bytes propOffsets @ be32_bytes len @ be32_bytes x @ be32_bytes y"
| "encode_property (VisibleProp len v) = be32_bytes propVisible @ be32_bytes len @ be32_bytes v"
| "encode_property (OpacityProp len v) = be32_bytes propOpacity @ be32_bytes len @ be32_bytes v"
| "encode_property (OtherProp magic payload) =
     be32_bytes magic @ be32_bytes (word_of_nat (length payload)) @ payload"

fun wf_property :: "layer_property \<Rightarrow> bool" where
  "wf_property (OtherProp magic payload) =
     (magic \<noteq> propEnd \<and> magic \<noteq> propOffsets \<and> magic \<noteq> propVisible \<and> magic \<noteq> propOpacity \<and>
      length payload < 2 ^ 32)"
| "wf_property p = True"

fun visible_values :: "layer_property list \<Rightarrow> u32 list" where
  "visible_values [] = []"
| "visible_values (VisibleProp len v # ps) = v # visible_values ps"
| "visible_values (p # ps) = visible_values ps"

fun opacity_values :: "layer_property list \<Rightarrow> u32 list" where
  "opacity_values [] = []"
| "opacity_values (OpacityProp len v # ps) = v # opacity_values ps"
| "opacity_values (p # ps) = opacity_values ps"

fun offsets_values :: "layer_property list \<Rightarrow> (u32 \<times> u32) list" where
  "offsets_values [] = []"
| "offsets_values (OffsetsProp len x y # ps) = (x, y) # offsets_values ps"
| "offsets_values (p # ps) = offsets_values ps"

definition props_length :: "layer_property list \<Rightarrow> nat" where
  "props_length ps = length (concat (map encode_property ps))"

section \<open>The tiles of a layer as the specification words them\<close>

text \<open>
  The tiles of a layer as the stream holds them: from left to right and from top to
  bottom, each tile is the run-length decoding of \<open>w * h * bytesPerPixel\<close> bytes, \<open>w\<close> by \<open>h\<close>
  being the size of the tile, into the scratch buffer as the tile before left it.
  \<open>decoded_row\<close> gives the planar data of \<open>k\<close> tiles of the row \<open>tileY\<close> from the column
  \<open>tileX\<close> on, \<open>decoded_tiles\<close> that of \<open>k\<close> rows from the row \<open>tileY\<close> on, both with the
  stream and the buffer behind the last tile; they are \<open>None\<close> when a tile does not decode.
\<close>

fun decoded_row ::
  "nat \<Rightarrow> tileGrid \<Rightarrow> nat \<Rightarrow> nat \<Rightarrow> nat \<Rightarrow> reader \<Rightarrow> byte list \<Rightarrow>
   (byte list list \<times> reader \<times> byte list) option" where
  "decoded_row bytesPerPixel g tileY tileX 0 r buffer = Some ([], r, buffer)"
| "decoded_row bytesPerPixel g tileY tileX (Suc k) r buffer =
     (case decodeRLE r buffer (tileW g tileX * tileH g tileY * bytesPerPixel) of
        Ok (data, r') \<Rightarrow>
          (case decoded_row bytesPerPixel g tileY (tileX + 1) k r' data of
             Some (ds, r'', buffer'') \<Rightarrow> Some (data # ds, r'', buffer'')
           | None \<Rightarrow> None)
      | Err err \<Rightarrow> None
      | Panic \<Rightarrow> None)"

fun decoded_tiles ::
  "nat \<Rightarrow> tileGrid \<Rightarrow> nat \<Rightarrow> nat \<Rightarrow> reader \<Rightarrow> byte list \<Rightarrow>
   (byte list list list \<times> reader \<times> byte list) option" where
  "decoded_tiles bytesPerPixel g tileY 0 r buffer = Some ([], r, buffer)"
| "decoded_tiles bytesPerPixel g tileY (Suc k) r buffer =
     (case decoded_row bytesPerPixel g tileY 0 (tileCountX g) r buffer of
        Some (ds, r', buffer') \<Rightarrow>
          (case decoded_tiles bytesPerPixel g (tileY + 1) k r' buffer' of
             Some (dss, r'', buffer'') \<Rightarrow> Some (ds # dss, r'', buffer'')
           | None \<Rightarrow> None)
      | None \<Rightarrow> None)"

text \<open>
  The image \<open>img\<close> of a layer at \<open>(lx, ly)\<close> shows the tile of \<open>w\<close> by \<open>h\<close> pixels at
  \<open>(left, tp)\<close> of the layer, whose planar data is \<open>data\<close>: the pixel in column \<open>col\<close> and row
  \<open>row\<close> of the tile, which is the pixel \<open>(lx + left + col, ly + tp + row)\<close> of the image, has
  its red, green and blue from the planes 0, 1 and 2 of \<open>data\<close>, each of \<open>w * h\<close> bytes, at
  the scanline-major index \<open>row * w + col\<close>, and its alpha from plane 3 when the layer has
  alpha, 255 when it has none.
\<close>

definition tile_shown ::
  "RGBA \<Rightarrow> int \<Rightarrow> int \<Rightarrow> u32 \<Rightarrow> nat \<Rightarrow> nat \<Rightarrow> nat \<Rightarrow> nat \<Rightarrow> byte list \<Rightarrow> bool" where
  "tile_shown img lx ly colorFormat left tp w h data =
     (\<forall>row < h. \<forall>col < w.
        RGBAAt img (lx + int (left + col)) (ly + int (tp + row)) =
          (data ! (row * w + col),
           data ! (w * h + row * w + col),
           data ! (2 * (w * h) + row * w + col),
           if colorFormat = rgbAlpha then data ! (3 * (w * h) + row * w + col) else 255))"

section \<open>Sample data\<close>

text \<open>
  A canvas with three layers named \<open>a\<close>, \<open>b\<close> and \<open>b\<close>, and a complete file: the header of a
  2 by 1 canvas, the compression property, one layer at offset 51 named \<open>bg\<close> with the
  properties opacity 255, visible 1 and offsets (5, -2), its hierarchy at offset 126, the
  level at offset 146 and one tile of two RGBA pixels at offset 162.
\<close>

definition witness_canvas :: Canvas where
  "witness_canvas =
     \<lparr>Width = 4, Height = 4,
      Layers = map (\<lambda>n. \<lparr>Image = \<lparr>Pix = [], Stride = 0, Bounds = Rect 0 0 0 0\<rparr>, Name = n,
                           Visible = True, Opacity = 255\<rparr>)
                 [[0x61], [0x62], [0x62]]\<rparr>"

definition sample_header :: "byte list" where
  "sample_header =
    [0x67, 0x69, 0x6D, 0x70, 0x20, 0x78, 0x63, 0x66, 0x20,  0x66, 0x69, 0x6C, 0x65,  0,
     0, 0, 0, 2,  0, 0, 0, 1,  0, 0, 0, 0]"

definition sample :: "byte list" where
  "sample = sample_header @
    [0, 0, 0, 17,  0, 0, 0, 1,  1,
     0, 0, 0, 0,  0, 0, 0, 0,
     0, 0, 0, 51,  0, 0, 0, 0,
     0, 0, 0, 2,  0, 0, 0, 1,  0, 0, 0, 1,
     0, 0, 0, 3,  0x62, 0x67, 0,
     0, 0, 0, 6,  0, 0, 0, 4,  0, 0, 0, 255,
     0, 0, 0, 8,  0, 0, 0, 4,  0, 0, 0, 1,
     0, 0, 0, 15,  0, 0, 0, 8,  0, 0, 0, 5,  0xFF, 0xFF, 0xFF, 0xFE,
     0, 0, 0, 0,  0, 0, 0, 0,
     0, 0, 0, 126,  0, 0, 0, 0,
     0, 0, 0, 2,  0, 0, 0, 1,  0, 0, 0, 4,  0, 0, 0, 146,
     0, 0, 0, 0,
     0, 0, 0, 2,  0, 0, 0, 1,
     0, 0, 0, 162,  0, 0, 0, 0,
     250, 10, 20, 30, 40, 50, 60,  1, 255]"

definition sample_layer :: Layer where
  "sample_layer =
     \<lparr>Image = \<lparr>Pix = [10, 30, 50, 255, 20, 40, 60, 255], Stride = 8,
                Bounds = \<lparr>MinX = 5, MinY = - 2, MaxX = 7, MaxY = - 1\<rparr>\<rparr>,
      Name = [0x62, 0x67], Visible = True, Opacity = 255\<rparr>"

text \<open>
  A layer on its own, at offset 0: no name, no property, no pixels (0 by 0, without
  alpha), its hierarchy at offset 32 and the level at offset 52.
\<close>

definition sample_plain :: "byte list" where
  "sample_plain =
    [0, 0, 0, 0,  0, 0, 0, 0,  0, 0, 0, 0,
     0, 0, 0, 0,
     0, 0, 0, 0,  0, 0, 0, 0,
     0, 0, 0, 32,  0, 0, 0, 0,
     0, 0, 0, 0,  0, 0, 0, 0,  0, 0, 0, 3,  0, 0, 0, 52,
     0, 0, 0, 0,
     0, 0, 0, 0,  0, 0, 0, 0,
     0, 0, 0, 0]"

definition plain_layer :: Layer where
  "plain_layer =
     \<lparr>Image = \<lparr>Pix = [], Stride = 0, Bounds = \<lparr>MinX = 0, MinY = 0, MaxX = 0, MaxY = 0\<rparr>\<rparr>,
      Name = [], Visible = True, Opacity = 0\<rparr>"

text \<open>
  The hierarchy header of the layer \<open>bg\<close> of the sample, and a hierarchy on its own, at
  offset 0: 2 by 1 pixels of 3 bytes, the level at offset 20 and one tile of two pixels
  without alpha at offset 36, with its header.
\<close>

definition sample_hierarchy :: "byte list" where
  "sample_hierarchy = [0, 0, 0, 2,  0, 0, 0, 1,  0, 0, 0, 4,  0, 0, 0, 146]"

definition sample_rgb :: "byte list" where
  "sample_rgb =
    [0, 0, 0, 2,  0, 0, 0, 1,  0, 0, 0, 3,  0, 0, 0, 20,
     0, 0, 0, 0,
     0, 0, 0, 2,  0, 0, 0, 1,
     0, 0, 0, 36,  0, 0, 0, 0,
     250, 10, 20, 30, 40, 50, 60]"

definition sample_rgb_hierarchy :: "byte list" where
  "sample_rgb_hierarchy = [0, 0, 0, 2,  0, 0, 0, 1,  0, 0, 0, 3,  0, 0, 0, 20]"

definition sample_layerHeader :: layerHeader where
  "sample_layerHeader = \<lparr>lh_Width = 2, lh_Height = 1, lh_ColorFormat = 1\<rparr>"

definition sample_rgb_layerHeader :: layerHeader where
  "sample_rgb_layerHeader = \<lparr>lh_Width = 2, lh_Height = 1, lh_ColorFormat = 0\<rparr>"

section \<open>Equations for evaluation\<close>

text \<open>
  The loops that start with a read are restated with the length test of the read in
  front, so that evaluation unfolds them one iteration at a time.
\<close>

lemma ReadFull_short:
  "remaining r < k \<Longrightarrow>
   ReadFull r k = (Inl (if remaining r = 0 then EOF else ErrUnexpectedEOF),
                   if remaining r = 0 then r else r\<lparr>pos := length (content r)\<rparr>)"
  by (simp add: ReadFull_def)

lemma Decode_props_code [code]:
  "Decode_props r finalErr =
     (if remaining r < 8
      then Inl (Wrapped ''read XCF: error reading property header: ''
                 (if remaining r = 0 then EOF else ErrUnexpectedEOF))
      else (case ReadFull r 8 of
        (Inl err, r1) \<Rightarrow> Inl (Wrapped ''read XCF: error reading property header: '' err)
      | (Inr hb, r1) \<Rightarrow>
         (let propHeader = decode_propertyHeader hb in
          if ph_MagicID propHeader = propEnd then Inr (r1, finalErr)
          else if ph_MagicID propHeader = propColormap then
            (case ReadFull r1 4 of
               (Inl err, r2) \<Rightarrow>
                 Inl (Wrapped ''read XCF: unable to read number of colors in color map: '' err)
             | (Inr cb, r2) \<Rightarrow>
                 (let colorCount = be32 cb in
                  case CopyN_Discard r2 (unat (3 * colorCount)) of
                    (Some err, r3) \<Rightarrow> Inl (Wrapped ''read XCF: error skipping color map: '' err)
                  | (None, r3) \<Rightarrow> Decode_props r3 finalErr))
          else if ph_MagicID propHeader = propCompression then
            (case Read r1 1 of
               (Inl err, r2) \<Rightarrow> Inl (Wrapped ''read XCF: error reading compression: '' err)
             | (Inr got, r2) \<Rightarrow>
                 (let compression = overwrite [0] 0 got in
                  if compression ! 0 \<noteq> rleCompression
                  then Inl (UnsupportedCompression (compression ! 0))
                  else Decode_props r2 finalErr))
          else
            (case skipProperty r1 propHeader of
               (Some err, r2) \<Rightarrow>
                 Decode_props r2 (Some (Wrapped ''unable to skip property: '' err))
             | (None, r2) \<Rightarrow> Decode_props r2 finalErr))))"
  by (subst Decode_props.simps) (simp add: ReadFull_short)


lemma loadLayer_props_code [code]:
  "loadLayer_props r visible opacity x y =
     (if remaining r < 8 then Inl (if remaining r = 0 then EOF else ErrUnexpectedEOF)
      else (case ReadFull r 8 of
        (Inl err, r1) \<Rightarrow> Inl err
      | (Inr hb, r1) \<Rightarrow>
         (let propHeader = decode_propertyHeader hb in
          if ph_MagicID propHeader = propEnd then Inr ((visible, opacity, x, y), r1)
          else if ph_MagicID propHeader = propOffsets then
            (case ReadFull r1 4 of
               (Inl err, r2) \<Rightarrow> Inl err
             | (Inr xb, r2) \<Rightarrow>
                 (case ReadFull r2 4 of
                    (Inl err, r3) \<Rightarrow> Inl err
                  | (Inr yb, r3) \<Rightarrow> loadLayer_props r3 visible opacity (be32 xb) (be32 yb)))
          else if ph_MagicID propHeader = propVisible then
            (case ReadFull r1 4 of
               (Inl err, r2) \<Rightarrow> Inl err
             | (Inr vb, r2) \<Rightarrow> loadLayer_props r2 (be32 vb \<noteq> 0) opacity x y)
          else if ph_MagicID propHeader = propOpacity then
            (case ReadFull r1 4 of
               (Inl err, r2) \<Rightarrow> Inl err
             | (Inr ob, r2) \<Rightarrow> loadLayer_props r2 visible (ucast (be32 ob)) x y)
          else
            (case skipProperty r1 propHeader of
               (Some err, r2) \<Rightarrow> Inl err
             | (None, r2) \<Rightarrow> loadLayer_props r2 visible opacity x y))))"
  by (subst loadLayer_props.simps) (simp add: ReadFull_short)

lemma readImageData_levels_code [code]:
  "readImageData_levels r =
     (if remaining r < 4 then Inl (if remaining r = 0 then EOF else ErrUnexpectedEOF)
      else (case ReadFull r 4 of
        (Inl err, r1) \<Rightarrow> Inl err
      | (Inr pb, r1) \<Rightarrow> if be32 pb = 0 then Inr r1 else readImageData_levels r1))"
  by (subst readImageData_levels.simps) (simp add: ReadFull_short)

lemma Decode_layerPointers_code [code]:
  "Decode_layerPointers r ptr layerPointers =
     (if remaining r < 4
      then (if ptr = 0
            then Some (layerPointers, if remaining r = 0 then r else r\<lparr>pos := length (content r)\<rparr>)
            else Decode_layerPointers (if remaining r = 0 then r else r\<lparr>pos := length (content r)\<rparr>)
                   ptr (layerPointers @ [ptr]))
      else (case ReadFull r 4 of
        (Inl err, r1) \<Rightarrow>
          if ptr = 0 then Some (layerPointers, r1)
          else Decode_layerPointers r1 ptr (layerPointers @ [ptr])
      | (Inr pb, r1) \<Rightarrow>
          if be32 pb = 0 then Some (layerPointers, r1)
          else Decode_layerPointers r1 (be32 pb) (layerPointers @ [be32 pb])))"
  by (subst Decode_layerPointers.simps) (simp add: ReadFull_short)

text \<open>The rows and columns of \<open>tile_shown\<close> range over finite intervals.\<close>

lemma tile_shown_code [code]:
  "tile_shown img lx ly colorFormat left tp w h data =
     (\<forall>row \<in> {0 ..< h}. \<forall>col \<in> {0 ..< w}.
        RGBAAt img (lx + int (left + col)) (ly + int (tp + row)) =
          (data ! (row * w + col),
           data ! (w * h + row * w + col),
           data ! (2 * (w * h) + row * w + col),
           if colorFormat = rgbAlpha then data ! (3 * (w * h) + row * w + col) else 255))"
  by (auto simp: tile_shown_def)

section \<open>Verification of the run-length decoder\<close>

lemma unread_advance: "unread r = bs @ rest \<Longrightarrow> unread (advance r (length bs)) = rest"
  by (simp add: unread_def advance_def add.commute flip: drop_drop)

lemma Read_full:
  assumes "unread r = bs @ rest" and "length bs \<le> 2 ^ 30"
  shows "Read r (length bs) = (Inr bs, advance r (length bs))"
proof (cases "bs = []")
  case True
  then show ?thesis by (simp add: Read_def advance_def)
next
  case False
  from assms have "length (bs @ rest) = length (content r) - pos r"
    by (simp add: unread_def flip: length_drop)
  with False have "pos r < length (content r)" by (cases bs) auto
  moreover have "take (length bs) (drop (pos r) (content r)) = bs"
    using assms by (simp add: unread_def)
  moreover have "int (length bs) \<le> 2 ^ 30"
    using assms(2) by (metis of_nat_le_iff of_nat_numeral of_nat_power)
  ultimately show ?thesis using False
    by (simp add: Read_def advance_def Let_def)
qed

lemma fill_ok:
  "next + c \<le> n \<Longrightarrow> n \<le> length dest \<Longrightarrow>
   fill dest n next c v = Some (overwrite dest next (replicate c v), next + c)"
proof (induction c arbitrary: dest "next")
  case 0
  then show ?case by (simp add: overwrite_def)
next
  case (Suc c)
  have "overwrite (dest[next := v]) (Suc next) (replicate c v) =
        overwrite dest next (replicate (Suc c) v)"
    using Suc.prems
    by (simp add: overwrite_def take_Suc_conv_app_nth upd_conv_take_nth_drop add.commute)
  with Suc show ?case by simp
qed

lemma fill_overshoot: "next \<le> n \<Longrightarrow> n < next + c \<Longrightarrow> fill dest n next c v = None"
  by (induction c arbitrary: dest "next") auto


lemma advance_advance: "advance (advance r a) b = advance r (a + b)"
  by (simp add: advance_def add.assoc)

lemma Read_prefix:
  "unread r = bs @ rest \<Longrightarrow> k = length bs \<Longrightarrow> k \<le> 2 ^ 30 \<Longrightarrow>
   Read r k = (Inr bs, advance r k)"
  using Read_full by simp

lemma long_count_le: "unat (hi :: byte) * 256 + unat (lo :: byte) \<le> 2 ^ 30"
  using unsigned_less [of hi, where 'a = nat] unsigned_less [of lo, where 'a = nat] by simp

lemma short_count_le: "256 - unat (op :: byte) \<le> 2 ^ 30"
  by simp

lemma decodeRLE_step_ShortRun:
  assumes "op \<le> 126" "unread r = op # v # rest" "next < n"
    "next + (unat op + 1) \<le> n" "n \<le> length dest"
  shows "decodeRLE_loop r b n dest next =
     decodeRLE_loop (advance r 2) (op # v # drop 2 b) n
       (overwrite dest next (replicate (unat op + 1) v)) (next + (unat op + 1))"
proof -
  have r0: "Read r 1 = (Inr [op], advance r 1)"
    using assms(2) Read_prefix [of r "[op]" "v # rest" 1] by simp
  have u1: "unread (advance r 1) = v # rest"
    using assms(2) unread_advance [of r "[op]" "v # rest"] by simp
  have r1: "Read (advance r 1) 1 = (Inr [v], advance r 2)"
    using u1 Read_prefix [of "advance r 1" "[v]" rest 1] by (simp add: advance_def)
  have f: "fill dest n next (unat op + 1) v =
      Some (overwrite dest next (replicate (unat op + 1) v), next + (unat op + 1))"
    using assms(4,5) by (rule fill_ok)
  have b: "overwrite (overwrite b 0 [op]) 1 [v] = op # v # drop 2 b"
    by (simp add: overwrite_def numeral_2_eq_2)
  have b0: "overwrite b 0 [op] ! 0 = op"
    by (simp add: overwrite_def)
  show ?thesis
    using assms(1,3) r0 r1 f b b0
    by (simp add: decodeRLE_loop.simps [of r b n dest "next"] Let_def del: fill.simps replicate.simps)
qed

lemma decodeRLE_step_LongRun:
  assumes "unread r = 127 # hi # lo # v # rest" "next < n"
    "next + (unat hi * 256 + unat lo) \<le> n" "n \<le> length dest"
  shows "decodeRLE_loop r b n dest next =
     decodeRLE_loop (advance r 4) (127 # hi # lo # v # drop 4 b) n
       (overwrite dest next (replicate (unat hi * 256 + unat lo) v))
       (next + (unat hi * 256 + unat lo))"
proof -
  have r0: "Read r 1 = (Inr [127], advance r 1)"
    using assms(1) Read_prefix [of r "[127]" "hi # lo # v # rest" 1] by simp
  have u1: "unread (advance r 1) = [hi, lo, v] @ rest"
    using assms(1) unread_advance [of r "[127]" "hi # lo # v # rest"] by simp
  have r1: "Read (advance r 1) 3 = (Inr [hi, lo, v], advance r 4)"
    using Read_prefix [OF u1, of 3] by (simp add: advance_def)
  have f: "fill dest n next (unat hi * 256 + unat lo) v =
      Some (overwrite dest next (replicate (unat hi * 256 + unat lo) v),
            next + (unat hi * 256 + unat lo))"
    using assms(3,4) by (rule fill_ok)
  have b: "overwrite (overwrite b 0 [127]) 1 [hi, lo, v] = 127 # hi # lo # v # drop 4 b"
    by (simp add: overwrite_def numeral_eq_Suc)
  have b0: "overwrite b 0 [127] ! 0 = 127"
    by (simp add: overwrite_def)
  show ?thesis
    using assms(2) r0 r1 f b b0
    by (simp add: decodeRLE_loop.simps [of r b n dest "next"] Let_def del: fill.simps replicate.simps)
qed

lemma decodeRLE_step_LongLiteral:
  assumes "unread r = 128 # hi # lo # bs @ rest" "length bs = unat hi * 256 + unat lo"
    "next < n" "next + length bs \<le> length dest"
  shows "decodeRLE_loop r b n dest next =
     decodeRLE_loop (advance r (3 + length bs)) (128 # hi # lo # drop 3 b) n
       (overwrite dest next bs) (next + length bs)"
proof -
  have r0: "Read r 1 = (Inr [128], advance r 1)"
    using assms(1) Read_prefix [of r "[128]" "hi # lo # bs @ rest" 1] by simp
  have u1: "unread (advance r 1) = [hi, lo] @ (bs @ rest)"
    using assms(1) unread_advance [of r "[128]" "hi # lo # bs @ rest"] by simp
  have r1: "Read (advance r 1) 2 = (Inr [hi, lo], advance r 3)"
    using Read_prefix [OF u1, of 2] by (simp add: advance_def)
  have u2: "unread (advance r 3) = bs @ rest"
    using unread_advance [OF u1] by (simp add: advance_def eval_nat_numeral)
  have r2: "Read (advance r 3) (unat hi * 256 + unat lo) = (Inr bs, advance r (3 + length bs))"
    using Read_prefix [OF u2, of "length bs"] assms(2) long_count_le [of hi lo]
    by (simp add: advance_def)
  have b: "overwrite (overwrite b 0 [128]) 1 [hi, lo] = 128 # hi # lo # drop 3 b"
    by (simp add: overwrite_def numeral_eq_Suc)
  have b0: "overwrite b 0 [128] ! 0 = 128"
    by (simp add: overwrite_def)
  show ?thesis
    using assms(2,3,4) r0 r1 r2 b b0
    by (simp add: decodeRLE_loop.simps [of r b n dest "next"] Let_def)
qed

lemma decodeRLE_step_ShortLiteral:
  assumes "129 \<le> op" "unread r = op # bs @ rest" "length bs = 256 - unat op"
    "next < n" "next + length bs \<le> length dest"
  shows "decodeRLE_loop r b n dest next =
     decodeRLE_loop (advance r (1 + length bs)) (op # drop 1 b) n
       (overwrite dest next bs) (next + length bs)"
proof -
  have r0: "Read r 1 = (Inr [op], advance r 1)"
    using assms(2) Read_prefix [of r "[op]" "bs @ rest" 1] by simp
  have u1: "unread (advance r 1) = bs @ rest"
    using assms(2) unread_advance [of r "[op]" "bs @ rest"] by simp
  have r1: "Read (advance r 1) (256 - unat op) = (Inr bs, advance r (1 + length bs))"
    using Read_prefix [OF u1, of "length bs"] assms(3) short_count_le [of op]
    by (simp add: advance_def)
  have op: "\<not> op \<le> 126" "op \<noteq> 127" "op \<noteq> 128"
    using assms(1) by (auto simp: word_le_nat_alt)
  have b0: "overwrite b 0 [op] ! 0 = op" "overwrite b 0 [op] = op # drop 1 b"
    by (simp_all add: overwrite_def)
  show ?thesis
    using assms(3,4,5) r0 r1 op b0
    by (simp add: decodeRLE_loop.simps [of r b n dest "next"] Let_def)
qed


lemma length_overwrite:
  "lo + length got \<le> length xs \<Longrightarrow> length (overwrite xs lo got) = length xs"
  by (simp add: overwrite_def)

lemma overwrite_append:
  "lo + length a + length c \<le> length xs \<Longrightarrow>
   overwrite (overwrite xs lo a) (lo + length a) c = overwrite xs lo (a @ c)"
  by (simp add: overwrite_def add.commute add.left_commute)

lemma decodeRLE_step:
  assumes "spec_wf p" "unread r = spec_encode p @ rest" "next < n"
    "next + length (spec_expand p) \<le> n" "n \<le> length dest"
  shows "\<exists>b'. decodeRLE_loop r b n dest next =
     decodeRLE_loop (advance r (length (spec_encode p))) b' n
       (overwrite dest next (spec_expand p)) (next + length (spec_expand p))"
proof (cases p)
  case (ShortRun op v)
  have e: "length (spec_encode p) = 2" "spec_expand p = replicate (unat op + 1) v"
    "length (replicate (unat op + 1) v) = unat op + 1"
    using ShortRun by simp_all
  have "decodeRLE_loop r b n dest next =
     decodeRLE_loop (advance r 2) (op # v # drop 2 b) n
       (overwrite dest next (replicate (unat op + 1) v)) (next + (unat op + 1))"
    using assms ShortRun by (intro decodeRLE_step_ShortRun [where rest = rest]) auto
  then show ?thesis unfolding e by (rule exI)
next
  case (LongRun hi lo v)
  have e: "length (spec_encode p) = 4" "spec_expand p = replicate (unat hi * 256 + unat lo) v"
    "length (replicate (unat hi * 256 + unat lo) v) = unat hi * 256 + unat lo"
    using LongRun by simp_all
  have "decodeRLE_loop r b n dest next =
     decodeRLE_loop (advance r 4) (127 # hi # lo # v # drop 4 b) n
       (overwrite dest next (replicate (unat hi * 256 + unat lo) v))
       (next + (unat hi * 256 + unat lo))"
    using assms LongRun by (intro decodeRLE_step_LongRun [where rest = rest]) auto
  then show ?thesis unfolding e by (rule exI)
next
  case (LongLiteral hi lo bs)
  have e: "length (spec_encode p) = 3 + length bs" "spec_expand p = bs"
    using LongLiteral by simp_all
  have "decodeRLE_loop r b n dest next =
     decodeRLE_loop (advance r (3 + length bs)) (128 # hi # lo # drop 3 b) n
       (overwrite dest next bs) (next + length bs)"
    using assms LongLiteral by (intro decodeRLE_step_LongLiteral [where rest = rest]) auto
  then show ?thesis unfolding e by (rule exI)
next
  case (ShortLiteral op bs)
  have e: "length (spec_encode p) = 1 + length bs" "spec_expand p = bs"
    using ShortLiteral by simp_all
  have "decodeRLE_loop r b n dest next =
     decodeRLE_loop (advance r (1 + length bs)) (op # drop 1 b) n
       (overwrite dest next bs) (next + length bs)"
    using assms ShortLiteral by (intro decodeRLE_step_ShortLiteral [where rest = rest]) auto
  then show ?thesis unfolding e by (rule exI)
qed

lemma decodeRLE_loop_packets:
  assumes "\<forall>p \<in> set ps. spec_wf p"
    and "unread r = concat (map spec_encode ps) @ rest"
    and "next + length (concat (map spec_expand ps)) = n"
    and "n \<le> length dest"
    and "ps \<noteq> [] \<longrightarrow> spec_expand (last ps) \<noteq> []"
  shows "decodeRLE_loop r b n dest next =
     Ok (overwrite dest next (concat (map spec_expand ps)),
         advance r (length (concat (map spec_encode ps))))"
  using assms
proof (induction ps arbitrary: r b dest "next")
  case Nil
  then show ?case
    by (simp add: decodeRLE_loop.simps [of r b n dest n] overwrite_def advance_def)
next
  case (Cons p ps)
  let ?out = "concat (map spec_expand ps)"
  have lt: "next < n"
  proof (rule ccontr)
    assume "\<not> next < n"
    with Cons.prems(3) have "spec_expand p = []" "\<forall>q \<in> set ps. spec_expand q = []" by auto
    with Cons.prems(5) show False by (cases "ps = []") auto
  qed
  have le: "next + length (spec_expand p) \<le> n" using Cons.prems(3) by simp
  have u: "unread r = spec_encode p @ (concat (map spec_encode ps) @ rest)"
    using Cons.prems(2) by simp
  from decodeRLE_step [of p r _ "next" n dest b] Cons.prems(1,4) lt le u
  obtain b' where step: "decodeRLE_loop r b n dest next =
     decodeRLE_loop (advance r (length (spec_encode p))) b' n
       (overwrite dest next (spec_expand p)) (next + length (spec_expand p))"
    by auto
  have len: "n \<le> length (overwrite dest next (spec_expand p))"
    using le Cons.prems(4) by (simp add: length_overwrite)
  have "decodeRLE_loop (advance r (length (spec_encode p))) b' n
       (overwrite dest next (spec_expand p)) (next + length (spec_expand p)) =
     Ok (overwrite (overwrite dest next (spec_expand p)) (next + length (spec_expand p)) ?out,
         advance (advance r (length (spec_encode p))) (length (concat (map spec_encode ps))))"
  proof (rule Cons.IH)
    show "\<forall>p \<in> set ps. spec_wf p" using Cons.prems(1) by simp
    show "unread (advance r (length (spec_encode p))) = concat (map spec_encode ps) @ rest"
      using unread_advance [OF u] .
    show "next + length (spec_expand p) + length ?out = n" using Cons.prems(3) by simp
    show "n \<le> length (overwrite dest next (spec_expand p))" by (rule len)
    show "ps \<noteq> [] \<longrightarrow> spec_expand (last ps) \<noteq> []" using Cons.prems(5) by auto
  qed
  moreover have "overwrite (overwrite dest next (spec_expand p)) (next + length (spec_expand p)) ?out =
      overwrite dest next (spec_expand p @ ?out)"
    using Cons.prems(3,4) by (intro overwrite_append) simp
  ultimately show ?case
    using step by (simp add: advance_advance)
qed


lemma decodeRLE_loop_prefix:
  assumes "\<forall>p \<in> set ps. spec_wf p"
    and "unread r = concat (map spec_encode ps) @ rest"
    and "next + length (concat (map spec_expand ps)) < n"
    and "n \<le> length dest"
  shows "\<exists>b'. decodeRLE_loop r b n dest next =
     decodeRLE_loop (advance r (length (concat (map spec_encode ps)))) b' n
       (overwrite dest next (concat (map spec_expand ps)))
       (next + length (concat (map spec_expand ps)))"
  using assms
proof (induction ps arbitrary: r b dest "next")
  case Nil
  then show ?case by (auto simp: overwrite_def advance_def)
next
  case (Cons p ps)
  let ?out = "concat (map spec_expand ps)"
  have lt: "next < n" and le: "next + length (spec_expand p) \<le> n"
    using Cons.prems(3) by simp_all
  have u: "unread r = spec_encode p @ (concat (map spec_encode ps) @ rest)"
    using Cons.prems(2) by simp
  from decodeRLE_step [of p r _ "next" n dest b] Cons.prems(1,4) lt le u
  obtain b1 where step: "decodeRLE_loop r b n dest next =
     decodeRLE_loop (advance r (length (spec_encode p))) b1 n
       (overwrite dest next (spec_expand p)) (next + length (spec_expand p))"
    by auto
  have len: "n \<le> length (overwrite dest next (spec_expand p))"
    using le Cons.prems(4) by (simp add: length_overwrite)
  have "\<exists>b'. decodeRLE_loop (advance r (length (spec_encode p))) b1 n
       (overwrite dest next (spec_expand p)) (next + length (spec_expand p)) =
     decodeRLE_loop (advance (advance r (length (spec_encode p)))
         (length (concat (map spec_encode ps)))) b' n
       (overwrite (overwrite dest next (spec_expand p)) (next + length (spec_expand p)) ?out)
       (next + length (spec_expand p) + length ?out)"
  proof (rule Cons.IH)
    show "\<forall>p \<in> set ps. spec_wf p" using Cons.prems(1) by simp
    show "unread (advance r (length (spec_encode p))) = concat (map spec_encode ps) @ rest"
      using unread_advance [OF u] .
    show "next + length (spec_expand p) + length ?out < n" using Cons.prems(3) by simp
    show "n \<le> length (overwrite dest next (spec_expand p))" by (rule len)
  qed
  moreover have "overwrite (overwrite dest next (spec_expand p)) (next + length (spec_expand p)) ?out =
      overwrite dest next (spec_expand p @ ?out)"
    using Cons.prems(3,4) by (intro overwrite_append) simp
  ultimately show ?case
    using step by (simp add: advance_advance add.assoc)
qed

lemma decodeRLE_final_overshoot:
  assumes "spec_wf p" and "unread r = spec_encode p @ rest" and "next < n"
    and "n < next + length (spec_expand p)" and "n \<le> length dest"
  shows "decodeRLE_loop r b n dest next =
     (if is_run p \<or> length dest < next + length (spec_expand p) then Panic
      else Ok (overwrite dest next (spec_expand p), advance r (length (spec_encode p))))"
proof (cases p)
  case (ShortRun op v)
  have r0: "Read r 1 = (Inr [op], advance r 1)"
    using assms(2) ShortRun Read_prefix [of r "[op]" "v # rest" 1] by simp
  have u1: "unread (advance r 1) = v # rest"
    using assms(2) ShortRun unread_advance [of r "[op]" "v # rest"] by simp
  have r1: "Read (advance r 1) 1 = (Inr [v], advance r 2)"
    using u1 Read_prefix [of "advance r 1" "[v]" rest 1] by (simp add: advance_def)
  have f: "fill dest n next (unat op + 1) v = None"
    using assms(3,4) ShortRun by (intro fill_overshoot) simp_all
  have b: "overwrite (overwrite b 0 [op]) 1 [v] = op # v # drop 2 b"
    by (simp add: overwrite_def numeral_2_eq_2)
  have b0: "overwrite b 0 [op] ! 0 = op"
    by (simp add: overwrite_def)
  show ?thesis
    using assms(1,3) ShortRun r0 r1 f b b0
    by (simp add: decodeRLE_loop.simps [of r b n dest "next"] Let_def is_run_def
        del: fill.simps replicate.simps)
next
  case (LongRun hi lo v)
  have r0: "Read r 1 = (Inr [127], advance r 1)"
    using assms(2) LongRun Read_prefix [of r "[127]" "hi # lo # v # rest" 1] by simp
  have u1: "unread (advance r 1) = [hi, lo, v] @ rest"
    using assms(2) LongRun unread_advance [of r "[127]" "hi # lo # v # rest"] by simp
  have r1: "Read (advance r 1) 3 = (Inr [hi, lo, v], advance r 4)"
    using Read_prefix [OF u1, of 3] by (simp add: advance_def)
  have f: "fill dest n next (unat hi * 256 + unat lo) v = None"
    using assms(3,4) LongRun by (intro fill_overshoot) simp_all
  have b: "overwrite (overwrite b 0 [127]) 1 [hi, lo, v] = 127 # hi # lo # v # drop 4 b"
    by (simp add: overwrite_def numeral_eq_Suc)
  have b0: "overwrite b 0 [127] ! 0 = 127"
    by (simp add: overwrite_def)
  show ?thesis
    using assms(3) LongRun r0 r1 f b b0
    by (simp add: decodeRLE_loop.simps [of r b n dest "next"] Let_def is_run_def
        del: fill.simps replicate.simps)
next
  case (LongLiteral hi lo bs)
  show ?thesis
  proof (cases "length dest < next + length bs")
    case True
    have r0: "Read r 1 = (Inr [128], advance r 1)"
      using assms(2) LongLiteral Read_prefix [of r "[128]" "hi # lo # bs @ rest" 1] by simp
    have u1: "unread (advance r 1) = [hi, lo] @ (bs @ rest)"
      using assms(2) LongLiteral unread_advance [of r "[128]" "hi # lo # bs @ rest"] by simp
    have r1: "Read (advance r 1) 2 = (Inr [hi, lo], advance r 3)"
      using Read_prefix [OF u1, of 2] by (simp add: advance_def)
    have b: "overwrite (overwrite b 0 [128]) 1 [hi, lo] = 128 # hi # lo # drop 3 b"
      by (simp add: overwrite_def numeral_eq_Suc)
    have b0: "overwrite b 0 [128] ! 0 = 128"
      by (simp add: overwrite_def)
    show ?thesis
      using assms(1,3) True LongLiteral r0 r1 b b0
      by (simp add: decodeRLE_loop.simps [of r b n dest "next"] Let_def is_run_def)
  next
    case False
    have "decodeRLE_loop r b n dest next =
       decodeRLE_loop (advance r (3 + length bs)) (128 # hi # lo # drop 3 b) n
         (overwrite dest next bs) (next + length bs)"
      using assms False LongLiteral by (intro decodeRLE_step_LongLiteral [where rest = rest]) auto
    then show ?thesis
      using assms(4) False LongLiteral
      by (simp add: decodeRLE_loop.simps [of _ _ n _ "next + length bs"] is_run_def
          eval_nat_numeral)
  qed
next
  case (ShortLiteral op bs)
  show ?thesis
  proof (cases "length dest < next + length bs")
    case True
    have r0: "Read r 1 = (Inr [op], advance r 1)"
      using assms(2) ShortLiteral Read_prefix [of r "[op]" "bs @ rest" 1] by simp
    have op: "\<not> op \<le> 126" "op \<noteq> 127" "op \<noteq> 128"
      using assms(1) ShortLiteral by (auto simp: word_le_nat_alt)
    have b0: "overwrite b 0 [op] ! 0 = op"
      by (simp add: overwrite_def)
    show ?thesis
      using assms(1,3) True ShortLiteral r0 op b0
      by (simp add: decodeRLE_loop.simps [of r b n dest "next"] Let_def is_run_def)
  next
    case False
    have "decodeRLE_loop r b n dest next =
       decodeRLE_loop (advance r (1 + length bs)) (op # drop 1 b) n
         (overwrite dest next bs) (next + length bs)"
      using assms False ShortLiteral by (intro decodeRLE_step_ShortLiteral [where rest = rest]) auto
    then show ?thesis
      using assms(4) False ShortLiteral
      by (simp add: decodeRLE_loop.simps [of _ _ n _ "next + length bs"] is_run_def)
  qed
qed


subsection \<open>C1: the four opcode classes\<close>

text \<open>
  The claim's example, that \<open>[0x05, 0xAA]\<close> decodes to five repetitions of \<open>0xAA\<close>,
  does not hold: the control byte \<open>5\<close> stands for \<open>5 + 1 = 6\<close> repetitions, as the claim's
  own rule says. Asked for five bytes the decoder writes five and panics on the sixth;
  asked for six it returns six.
\<close>

theorem decodeRLE_five_counterexample:
  "decodeRLE \<lparr>content = [0x05, 0xAA], pos = 0\<rparr> (replicate 5 0) 5 = Panic \<and>
   decodeRLE \<lparr>content = [0x05, 0xAA], pos = 0\<rparr> (replicate 6 0) 6 =
     Ok (replicate 6 0xAA, \<lparr>content = [0x05, 0xAA], pos = 2\<rparr>)"
  by code_simp

text \<open>
  C1, as amended. For every sequence of well-formed packets whose expansions add up to
  exactly the requested count \<open>n\<close> (the last one not empty), and every stream that
  holds their encodings, \<open>decodeRLE\<close> succeeds, the first \<open>n\<close> bytes of the destination are
  the concatenation of the expansions the specification assigns to the packets (a short
  run repeats its value \<open>op + 1\<close> times, a long run as often as its 2-byte big-endian
  count says, the literals are copied verbatim), the bytes behind them are untouched, and
  the stream is consumed up to the end of the last packet.
\<close>

theorem decodeRLE_packets:
  assumes "\<forall>p \<in> set ps. spec_wf p"
    and "unread encoded = concat (map spec_encode ps) @ rest"
    and "length (concat (map spec_expand ps)) = n"
    and "n \<le> length dest"
    and "ps \<noteq> [] \<longrightarrow> spec_expand (last ps) \<noteq> []"
  shows "decodeRLE encoded dest n =
     Ok (concat (map spec_expand ps) @ drop n dest,
         advance encoded (length (concat (map spec_encode ps))))"
proof -
  have "decodeRLE_loop encoded [0, 0, 0, 0] n dest 0 =
     Ok (overwrite dest 0 (concat (map spec_expand ps)),
         advance encoded (length (concat (map spec_encode ps))))"
    using assms by (intro decodeRLE_loop_packets [where rest = rest]) simp_all
  then show ?thesis
    using assms(3) by (simp add: decodeRLE_def overwrite_def)
qed

text \<open>
  The specification's examples in one stream, with six repetitions for the control byte
  \<open>0x05\<close>: a short run, the short literal \<open>0xFF 0x42\<close>, the long run \<open>127 0x00 0x03 0x09\<close>
  and the long literal \<open>128 0x00 0x02 0x11 0x22\<close>.
\<close>

theorem decodeRLE_packets_witness:
  "decodeRLE \<lparr>content = [0x05, 0xAA, 0xFF, 0x42, 127, 0x00, 0x03, 0x09, 128, 0x00, 0x02, 0x11, 0x22],
              pos = 0\<rparr> (replicate 12 0) 12 =
   Ok (replicate 6 0xAA @ [0x42] @ replicate 3 0x09 @ [0x11, 0x22],
       \<lparr>content = [0x05, 0xAA, 0xFF, 0x42, 127, 0x00, 0x03, 0x09, 128, 0x00, 0x02, 0x11, 0x22],
        pos = 13\<rparr>)"
  using decodeRLE_packets [of
      "[ShortRun 0x05 0xAA, ShortLiteral 0xFF [0x42], LongRun 0x00 0x03 0x09,
        LongLiteral 0x00 0x02 [0x11, 0x22]]"
      "\<lparr>content = [0x05, 0xAA, 0xFF, 0x42, 127, 0x00, 0x03, 0x09, 128, 0x00, 0x02, 0x11, 0x22],
        pos = 0\<rparr>" "[]" 12 "replicate 12 0"]
  by (simp add: unread_def advance_def)

subsection \<open>C5: a stream that ends inside a packet\<close>

text \<open>
  C5 says that a stream which is exhausted before the destination is full makes the
  decoder fail. The decoder reads with \<^verbatim>\<open>Read\<close>, which reports an error only when nothing
  at all is left; a short read passes for a full one. Here the control byte \<open>0xFB\<close>
  announces five literal bytes and the stream holds one: the call returns no error, and
  four of the five destination bytes were never written.
\<close>

theorem decodeRLE_short_read:
  "decodeRLE \<lparr>content = [0xFB, 0x42], pos = 0\<rparr> (replicate 5 0) 5 =
     Ok ([0x42, 0, 0, 0, 0], \<lparr>content = [0xFB, 0x42], pos = 2\<rparr>)"
  by code_simp

subsection \<open>C6: a last packet that overshoots the destination\<close>

text \<open>
  C6 says that a run which overshoots the requested count proceeds by its full declared
  count. It does not: the fill indexes the destination slice, whose length is the
  requested count, and panics at the boundary, even where the backing array has room.
\<close>

theorem decodeRLE_fill_overshoot_counterexample:
  "decodeRLE \<lparr>content = [0x05, 0xAA], pos = 0\<rparr> (replicate 8 0) 3 = Panic"
  by code_simp

text \<open>
  C6, as amended. When the packets before the last one stay below the requested count
  \<open>n\<close> and the last packet overshoots it: a run (control byte \<open>0..127\<close>) panics; a literal
  (control byte \<open>128..255\<close>) is copied in full, beyond the slice's length into its backing
  array, when the backing array (the capacity, \<open>length dest\<close>) has room for it, and panics
  otherwise. Nothing is truncated at the boundary.
\<close>

theorem decodeRLE_overshoot:
  assumes "\<forall>q \<in> set ps. spec_wf q" and "spec_wf p"
    and "unread encoded = concat (map spec_encode ps) @ spec_encode p @ rest"
    and "length (concat (map spec_expand ps)) < n"
    and "n < length (concat (map spec_expand ps)) + length (spec_expand p)"
    and "n \<le> length dest"
  shows "decodeRLE encoded dest n =
     (if is_run p \<or> length dest < length (concat (map spec_expand ps)) + length (spec_expand p)
      then Panic
      else Ok (concat (map spec_expand ps) @ spec_expand p @
                 drop (length (concat (map spec_expand ps)) + length (spec_expand p)) dest,
               advance encoded (length (concat (map spec_encode ps)) + length (spec_encode p))))"
proof -
  let ?k = "length (concat (map spec_expand ps))"
  let ?r = "advance encoded (length (concat (map spec_encode ps)))"
  let ?d = "overwrite dest 0 (concat (map spec_expand ps))"
  from decodeRLE_loop_prefix [of ps encoded "spec_encode p @ rest" 0 n dest "[0, 0, 0, 0]"] assms
  obtain b' where pre: "decodeRLE_loop encoded [0, 0, 0, 0] n dest 0 = decodeRLE_loop ?r b' n ?d ?k"
    by auto
  have u: "unread ?r = spec_encode p @ rest"
    using unread_advance [OF assms(3)] .
  have len: "length ?d = length dest"
    using assms(4,6) by (simp add: length_overwrite)
  have "decodeRLE_loop ?r b' n ?d ?k =
     (if is_run p \<or> length ?d < ?k + length (spec_expand p) then Panic
      else Ok (overwrite ?d ?k (spec_expand p), advance ?r (length (spec_encode p))))"
    using assms(2,4,5,6) u len by (intro decodeRLE_final_overshoot [where rest = rest]) simp_all
  moreover have "\<not> length dest < ?k + length (spec_expand p) \<Longrightarrow>
     overwrite ?d ?k (spec_expand p) =
       concat (map spec_expand ps) @ spec_expand p @ drop (?k + length (spec_expand p)) dest"
    using overwrite_append [of 0 "concat (map spec_expand ps)" "spec_expand p" dest]
    by (simp add: overwrite_def)
  ultimately show ?thesis
    using pre len by (auto simp: decodeRLE_def advance_advance)
qed

theorem decodeRLE_overshoot_witness:
  "decodeRLE \<lparr>content = [0x00, 0x07, 0x05, 0xAA], pos = 0\<rparr> (replicate 8 0) 3 = Panic \<and>
   decodeRLE \<lparr>content = [0x00, 0x07, 0xFB, 1, 2, 3, 4, 5], pos = 0\<rparr> (replicate 8 0) 3 =
     Ok ([0x07, 1, 2, 3, 4, 5] @ replicate 2 0, \<lparr>content = [0x00, 0x07, 0xFB, 1, 2, 3, 4, 5], pos = 8\<rparr>) \<and>
   decodeRLE \<lparr>content = [0x00, 0x07, 0xFB, 1, 2, 3, 4, 5], pos = 0\<rparr> (replicate 4 0) 3 = Panic"
  using
    decodeRLE_overshoot [of "[ShortRun 0x00 0x07]" "ShortRun 0x05 0xAA"
      "\<lparr>content = [0x00, 0x07, 0x05, 0xAA], pos = 0\<rparr>" "[]" 3 "replicate 8 0"]
    decodeRLE_overshoot [of "[ShortRun 0x00 0x07]" "ShortLiteral 0xFB [1, 2, 3, 4, 5]"
      "\<lparr>content = [0x00, 0x07, 0xFB, 1, 2, 3, 4, 5], pos = 0\<rparr>" "[]" 3 "replicate 8 0"]
    decodeRLE_overshoot [of "[ShortRun 0x00 0x07]" "ShortLiteral 0xFB [1, 2, 3, 4, 5]"
      "\<lparr>content = [0x00, 0x07, 0xFB, 1, 2, 3, 4, 5], pos = 0\<rparr>" "[]" 3 "replicate 4 0"]
  by (simp add: unread_def advance_def is_run_def)

section \<open>Verification of GetLayerByName\<close>

lemma GetLayerByName_from_canvas: "fst (GetLayerByName_from c name i) = c"
proof (induction c name i rule: GetLayerByName_from.induct)
  case (1 c name i)
  then show ?case by (simp add: GetLayerByName_from.simps [of c name i])
qed

lemma GetLayerByName_from_Some:
  "snd (GetLayerByName_from c name i) = Some k \<Longrightarrow>
   i \<le> k \<and> k < length (Layers c) \<and> Name (Layers c ! k) = name \<and>
   (\<forall>j. i \<le> j \<and> j < k \<longrightarrow> Name (Layers c ! j) \<noteq> name)"
proof (induction c name i rule: GetLayerByName_from.induct)
  case (1 c name i)
  show ?case
  proof (cases "i < length (Layers c) \<and> Name (Layers c ! i) \<noteq> name")
    case True
    with 1 have "Suc i \<le> k \<and> k < length (Layers c) \<and> Name (Layers c ! k) = name \<and>
        (\<forall>j. Suc i \<le> j \<and> j < k \<longrightarrow> Name (Layers c ! j) \<noteq> name)"
      by (simp add: GetLayerByName_from.simps [of c name i])
    with True show ?thesis
      by (auto simp: le_Suc_eq [of i] not_less_eq_eq dest: le_neq_implies_less)
  next
    case False
    with 1(2) show ?thesis
      by (auto simp: GetLayerByName_from.simps [of c name i] split: if_splits)
  qed
qed

lemma GetLayerByName_from_None:
  "snd (GetLayerByName_from c name i) = None \<Longrightarrow>
   (\<forall>j. i \<le> j \<and> j < length (Layers c) \<longrightarrow> Name (Layers c ! j) \<noteq> name)"
proof (induction c name i rule: GetLayerByName_from.induct)
  case (1 c name i)
  show ?case
  proof (cases "i < length (Layers c) \<and> Name (Layers c ! i) \<noteq> name")
    case True
    with 1 have "\<forall>j. Suc i \<le> j \<and> j < length (Layers c) \<longrightarrow> Name (Layers c ! j) \<noteq> name"
      by (simp add: GetLayerByName_from.simps [of c name i])
    with True show ?thesis
      by (metis Suc_leI le_neq_implies_less)
  next
    case False
    with 1(2) show ?thesis
      by (auto simp: GetLayerByName_from.simps [of c name i] split: if_splits)
  qed
qed

text \<open>
  C10. For every canvas and every name, \<open>GetLayerByName\<close> leaves the canvas as it is; when
  it returns a layer, that is the layer of the lowest index whose name is the given one;
  when it returns \<^verbatim>\<open>nil\<close>, no layer has that name.
\<close>

theorem GetLayerByName_first_match:
  "fst (GetLayerByName c name) = c \<and>
   (case snd (GetLayerByName c name) of
      None \<Rightarrow> \<forall>j < length (Layers c). Name (Layers c ! j) \<noteq> name
    | Some k \<Rightarrow> k < length (Layers c) \<and> Name (Layers c ! k) = name \<and>
        (\<forall>j < k. Name (Layers c ! j) \<noteq> name))"
  using GetLayerByName_from_canvas [of c name 0] GetLayerByName_from_Some [of c name 0]
    GetLayerByName_from_None [of c name 0]
  by (auto simp: GetLayerByName_def split: option.splits)

lemma witness_canvas_lookup:
  "snd (GetLayerByName witness_canvas [0x62]) = Some 1"
  "snd (GetLayerByName witness_canvas [0x7A]) = None"
  by code_simp+

theorem GetLayerByName_first_match_witness:
  "GetLayerByName witness_canvas [0x62] = (witness_canvas, Some 1) \<and>
   Name (Layers witness_canvas ! 1) = [0x62] \<and>
   Name (Layers witness_canvas ! 0) \<noteq> [0x62] \<and>
   GetLayerByName witness_canvas [0x7A] = (witness_canvas, None)"
  using GetLayerByName_first_match [of witness_canvas "[0x62]"]
    GetLayerByName_first_match [of witness_canvas "[0x7A]"] witness_canvas_lookup
  by (auto simp: prod_eq_iff)

section \<open>Verification of readString\<close>

lemma ReadFull_prefix:
  assumes "unread r = bs @ rest" and "k = length bs"
  shows "ReadFull r k = (Inr bs, advance r k)"
proof -
  have "length (bs @ rest) = remaining r"
    using assms(1) by (simp add: unread_def remaining_def flip: length_drop)
  then have "k \<le> remaining r" using assms(2) by simp
  moreover have "take k (drop (pos r) (content r)) = bs"
    using assms by (simp add: unread_def)
  ultimately show ?thesis by (simp add: ReadFull_def advance_def)
qed

text \<open>
  C8 says that a declared length of \<open>n \<ge> 1\<close> consumes exactly \<open>n\<close> bytes and gives the first
  \<open>n - 1\<close> of them, for every string read. \<^verbatim>\<open>readString\<close> fetches the \<open>n\<close> bytes with one
  \<^verbatim>\<open>Read\<close>, which returns what is there and no error when the stream ends inside them.
  Here the length field says 5 and two bytes follow: the call succeeds, has consumed two
  bytes, and the name of four bytes ends with the zero bytes of the fresh slice.
\<close>

theorem readString_short_read:
  "readString \<lparr>content = [0, 0, 0, 5, 0x61, 0x62], pos = 0\<rparr> =
     Inr ([0x61, 0x62, 0, 0], \<lparr>content = [0, 0, 0, 5, 0x61, 0x62], pos = 6\<rparr>)"
  by code_simp

text \<open>
  Where the stream holds the announced bytes (and they are no more than one \<^verbatim>\<open>Read\<close>
  transfers), the function does what C8 says: a length of 0 gives the empty string and
  consumes nothing behind the length field; a length of \<open>n \<ge> 1\<close> consumes exactly \<open>n\<close> bytes
  behind it and gives the first \<open>n - 1\<close> of them.
\<close>

lemma readString_complete:
  assumes "unread r = lb @ rest" and "length lb = 4"
  shows "(be32 lb = 0 \<longrightarrow> readString r = Inr ([], advance r 4)) \<and>
         (be32 lb \<noteq> 0 \<and> unat (be32 lb) \<le> length rest \<and> unat (be32 lb) \<le> 2 ^ 30 \<longrightarrow>
            readString r = Inr (take (unat (be32 lb) - 1) rest, advance r (4 + unat (be32 lb))))"
proof -
  have hd: "ReadFull r 4 = (Inr lb, advance r 4)"
    using assms by (intro ReadFull_prefix [where rest = rest]) simp_all
  have u: "unread (advance r 4) = rest"
    using unread_advance [OF assms(1)] assms(2) by simp
  show ?thesis
  proof (intro conjI impI)
    assume "be32 lb = 0"
    then show "readString r = Inr ([], advance r 4)"
      by (simp add: readString_def hd)
  next
    assume a: "be32 lb \<noteq> 0 \<and> unat (be32 lb) \<le> length rest \<and> unat (be32 lb) \<le> 2 ^ 30"
    let ?n = "unat (be32 lb)"
    have "unread (advance r 4) = take ?n rest @ drop ?n rest" using u by simp
    then have rd: "Read (advance r 4) ?n = (Inr (take ?n rest), advance r (4 + ?n))"
      using Read_prefix [of "advance r 4" "take ?n rest" "drop ?n rest" ?n] a
      by (simp add: advance_advance)
    have m1: "unat (be32 lb - 1) = ?n - 1"
      using a by (simp add: unat_minus_one)
    have "take (?n - 1) (overwrite (replicate ?n 0) 0 (take ?n rest)) = take (?n - 1) rest"
      using a by (simp add: overwrite_def min_def)
    then show "readString r = Inr (take (?n - 1) rest, advance r (4 + ?n))"
      using a by (simp add: readString_def hd rd m1 Let_def)
  qed
qed

lemma readString_examples:
  "readString \<lparr>content = [0, 0, 0, 0, 0x61, 0], pos = 0\<rparr> =
     Inr ([], \<lparr>content = [0, 0, 0, 0, 0x61, 0], pos = 4\<rparr>)"
  "readString \<lparr>content = [0, 0, 0, 1, 0, 0x61], pos = 0\<rparr> =
     Inr ([], \<lparr>content = [0, 0, 0, 1, 0, 0x61], pos = 5\<rparr>)"
  "readString \<lparr>content = [0, 0, 0, 3, 0x62, 0x67, 0, 0x61], pos = 0\<rparr> =
     Inr ([0x62, 0x67], \<lparr>content = [0, 0, 0, 3, 0x62, 0x67, 0, 0x61], pos = 7\<rparr>)"
  by code_simp+

section \<open>Verification of the tile grid\<close>

text \<open>
  C3 says that a layer of width \<open>w\<close> has \<open>ceil(w / 64)\<close> tile columns, for every \<open>w\<close>. The
  count is computed as \<^verbatim>\<open>int(layerHeader.Width+63) / 64\<close>: the sum is formed in \<^verbatim>\<open>uint32\<close>
  and wraps for the 63 largest widths. For the width \<open>0xFFFFFFFF\<close> the grid has no column
  at all, where \<open>ceil(w / 64)\<close> is 67108864.
\<close>

theorem tileGrid_of_wraps:
  "tileCountX (tileGrid_of \<lparr>lh_Width = 0xFFFFFFFF, lh_Height = 1, lh_ColorFormat = 1\<rparr>) = 0 \<and>
   tileCountY (tileGrid_of \<lparr>lh_Width = 0xFFFFFFFF, lh_Height = 1, lh_ColorFormat = 1\<rparr>) = 1 \<and>
   (unat (lh_Width \<lparr>lh_Width = 0xFFFFFFFF, lh_Height = 1, lh_ColorFormat = 1\<rparr>) + 63) div 64
     = 67108864"
  by (simp add: tileGrid_of_def)

text \<open>
  Below the wrap the counts are as C3 says, the edge tiles have the remainder as their
  size (64 when it is 0), and the 70 by 70 layer has a 2 by 2 grid with edge tiles of 6.
\<close>

lemma tileGrid_of_in_range:
  assumes "unat (lh_Width lh) \<le> 2 ^ 32 - 64" and "unat (lh_Height lh) \<le> 2 ^ 32 - 64"
  shows "tileCountX (tileGrid_of lh) = (unat (lh_Width lh) + 63) div 64"
    and "tileCountY (tileGrid_of lh) = (unat (lh_Height lh) + 63) div 64"
proof -
  have "unat (lh_Width lh + 63) = unat (lh_Width lh) + 63"
    using assms(1) by (simp add: unat_word_ariths)
  then show "tileCountX (tileGrid_of lh) = (unat (lh_Width lh) + 63) div 64"
    by (simp add: tileGrid_of_def)
  have "unat (lh_Height lh + 63) = unat (lh_Height lh) + 63"
    using assms(2) by (simp add: unat_word_ariths)
  then show "tileCountY (tileGrid_of lh) = (unat (lh_Height lh) + 63) div 64"
    by (simp add: tileGrid_of_def)
qed

lemma tileGrid_of_edges:
  "tileW (tileGrid_of lh) tileX =
     (if tileX = tileCountX (tileGrid_of lh) - 1
      then (if unat (lh_Width lh) mod 64 = 0 then 64 else unat (lh_Width lh) mod 64) else 64)"
  "tileH (tileGrid_of lh) tileY =
     (if tileY = tileCountY (tileGrid_of lh) - 1
      then (if unat (lh_Height lh) mod 64 = 0 then 64 else unat (lh_Height lh) mod 64) else 64)"
  by (simp_all add: tileW_def tileH_def tileGrid_of_def)

lemma tileGrid_of_70:
  "tileGrid_of \<lparr>lh_Width = 70, lh_Height = 70, lh_ColorFormat = cf\<rparr> =
     \<lparr>tileCountX = 2, tileCountY = 2, rightMostTileWidth = 6, bottomMostTileHeight = 6\<rparr>"
  by (simp add: tileGrid_of_def)

section \<open>The stream keeps its content\<close>

text \<open>
  No read, skip or seek changes the bytes of the file: every function of the reader
  hands on a stream with the content it was given, so that a seek to an absolute offset
  finds the same bytes from whatever stream of the file it starts.
\<close>

lemma Read_content: "Read r n = (x, r') \<Longrightarrow> content r' = content r"
  by (auto simp: Read_def Let_def split: if_splits)

lemma ReadFull_content: "ReadFull r k = (x, r') \<Longrightarrow> content r' = content r"
  by (auto simp: ReadFull_def split: if_splits)

lemma CopyN_Discard_content: "CopyN_Discard r k = (x, r') \<Longrightarrow> content r' = content r"
  by (auto simp: CopyN_Discard_def split: if_splits)

lemma skipProperty_content: "skipProperty r h = (x, r') \<Longrightarrow> content r' = content r"
  by (auto simp: skipProperty_def dest: CopyN_Discard_content split: prod.splits option.splits)

lemma Seek_content: "content (Seek r k) = content r"
  by (simp add: Seek_def)

lemma decodeRLE_loop_content:
  "decodeRLE_loop r buffer n dest next = Ok (d, r') \<Longrightarrow> content r' = content r"
proof (induction "remaining r" arbitrary: r buffer dest "next" rule: less_induct)
  case less
  have step1: "\<And>g r1 k x r2 bk dk nk. Read r (Suc 0) = (Inr g, r1) \<Longrightarrow> Read r1 k = (x, r2) \<Longrightarrow>
      decodeRLE_loop r2 bk n dk nk = Ok (d, r') \<Longrightarrow> content r' = content r"
  proof -
    fix g r1 k x r2 bk dk nk
    assume a: "Read r (Suc 0) = (Inr g, r1)" "Read r1 k = (x, r2)"
      "decodeRLE_loop r2 bk n dk nk = Ok (d, r')"
    from Read_chain2 [OF a(1,2)] have "remaining r2 < remaining r" .
    from less.hyps [OF this a(3)] Read_content [OF a(1)] Read_content [OF a(2)]
    show "content r' = content r" by simp
  qed
  have step2: "\<And>g r1 k x r2 m y r3 bk dk nk. Read r (Suc 0) = (Inr g, r1) \<Longrightarrow>
      Read r1 k = (x, r2) \<Longrightarrow> Read r2 m = (y, r3) \<Longrightarrow>
      decodeRLE_loop r3 bk n dk nk = Ok (d, r') \<Longrightarrow> content r' = content r"
  proof -
    fix g r1 k x r2 m y r3 bk dk nk
    assume a: "Read r (Suc 0) = (Inr g, r1)" "Read r1 k = (x, r2)" "Read r2 m = (y, r3)"
      "decodeRLE_loop r3 bk n dk nk = Ok (d, r')"
    from Read_chain3 [OF a(1,2,3)] have "remaining r3 < remaining r" .
    from less.hyps [OF this a(4)] Read_content [OF a(1)] Read_content [OF a(2)]
      Read_content [OF a(3)]
    show "content r' = content r" by simp
  qed
  show ?case
    using less.prems
    apply (subst (asm) decodeRLE_loop.simps)
    apply (auto simp: Let_def split: if_splits prod.splits sum.splits option.splits)
    apply (erule (2) step1 | erule (3) step2)+
    done
qed

lemma decodeRLE_content: "decodeRLE r dest n = Ok (d, r') \<Longrightarrow> content r' = content r"
  by (simp add: decodeRLE_def decodeRLE_loop_content)

lemma readTile_content:
  "readTile cf bpp stride g tileY tileX r buffer pix = Ok (r', buffer', pix') \<Longrightarrow>
   content r' = content r"
  by (auto simp: readTile_def Let_def dest: decodeRLE_content
      split: if_splits outcome.splits option.splits)

lemma readTiles_row_content:
  "readTiles_row cf bpp stride g tileY tileX k r buffer pix = Ok (r', buffer', pix') \<Longrightarrow>
   content r' = content r"
proof (induction k arbitrary: tileX r buffer pix)
  case 0
  then show ?case by simp
next
  case (Suc k)
  then show ?case
    by (auto split: outcome.splits dest!: readTile_content)
qed

lemma readTiles_content:
  "readTiles cf bpp stride g tileY k r buffer pix = Ok (r', buffer', pix') \<Longrightarrow>
   content r' = content r"
proof (induction k arbitrary: tileY r buffer pix)
  case 0
  then show ?case by simp
next
  case (Suc k)
  then show ?case
    by (auto split: outcome.splits dest!: readTiles_row_content)
qed

lemma readImageData_levels_content:
  "readImageData_levels r = Inr r' \<Longrightarrow> content r' = content r"
proof (induction r rule: readImageData_levels.induct)
  case (1 r)
  from "1.prems" show ?case
    apply (subst (asm) readImageData_levels.simps)
    apply (auto split: prod.splits sum.splits if_splits dest: ReadFull_content)
    using "1.IH" ReadFull_content by fastforce
qed

lemma readImageData_content:
  "readImageData r lh lx ly offset = Ok (img, r') \<Longrightarrow> content r' = content r"
  by (auto simp: readImageData_def Let_def Seek_content
      dest!: ReadFull_content readImageData_levels_content readTiles_content
      split: prod.splits sum.splits option.splits outcome.splits if_splits)

lemma readString_content: "readString r = Inr (name, r') \<Longrightarrow> content r' = content r"
  by (auto simp: readString_def Let_def dest!: ReadFull_content Read_content
      split: prod.splits sum.splits if_splits)

lemma loadLayer_props_content:
  "loadLayer_props r v opc x y = Inr (st, r') \<Longrightarrow> content r' = content r"
proof (induction r v opc x y rule: loadLayer_props.induct)
  case (1 r v opc x y)
  from "1.prems" show ?case
    apply (subst (asm) loadLayer_props.simps)
    apply (auto simp: Let_def split: prod.splits sum.splits option.splits if_splits)
    using "1.IH" ReadFull_content skipProperty_content apply fastforce+
    done
qed

lemma loadLayer_content: "loadLayer r offset = Ok (layer, r') \<Longrightarrow> content r' = content r"
  by (auto simp: loadLayer_def Let_def Seek_content
      dest!: ReadFull_content readString_content loadLayer_props_content readImageData_content
      split: prod.splits sum.splits outcome.splits if_splits)

lemma Decode_props_content:
  "Decode_props r finalErr = Inr (r', finalErr') \<Longrightarrow> content r' = content r"
proof (induction r finalErr rule: Decode_props.induct)
  case (1 r finalErr)
  from "1.prems" show ?case
    apply (subst (asm) Decode_props.simps)
    apply (auto simp: Let_def split: prod.splits sum.splits option.splits if_splits)
    using "1.IH" ReadFull_content Read_content CopyN_Discard_content skipProperty_content
        apply fastforce+
    done
qed

lemma Decode_layerPointers_content:
  assumes "Decode_layerPointers r ptr acc = Some res"
  shows "content (snd res) = content r"
proof (rule Decode_layerPointers.raw_induct
    [where P = "\<lambda>r ptr acc res. content (snd res) = content r", OF _ assms])
  fix f r ptr acc res
  assume IH: "\<And>r ptr acc y. f r ptr acc = Some y \<Longrightarrow> content (snd y) = content r"
    and eq: "(case ReadFull r 4 of
        (Inl err, r1) \<Rightarrow> if ptr = 0 then Some (acc, r1) else f r1 ptr (acc @ [ptr])
      | (Inr pb, r1) \<Rightarrow>
          if be32 pb = 0 then Some (acc, r1) else f r1 (be32 pb) (acc @ [be32 pb])) = Some res"
  obtain x r1 where rd: "ReadFull r 4 = (x, r1)" by (cases "ReadFull r 4")
  from ReadFull_content [OF rd] have c: "content r1 = content r" .
  from eq rd c IH show "content (snd res) = content r"
    by (cases x) (auto split: if_splits)
qed

lemma Seek_cong: "content r1 = content r2 \<Longrightarrow> Seek r1 k = Seek (r2 :: reader) k"
  by (cases r1, cases r2) (simp add: Seek_def)

lemma loadLayer_cong: "content r1 = content r2 \<Longrightarrow> loadLayer r1 offset = loadLayer r2 offset"
  by (simp add: loadLayer_def Seek_cong [of r1 r2])

section \<open>Verification of Decode\<close>

lemma words32_short: "length bs < 4 \<Longrightarrow> words32 bs = []"
  by (cases bs rule: words32.cases) simp_all

lemma words32_long: "4 \<le> length bs \<Longrightarrow> words32 bs = be32 (take 4 bs) # words32 (drop 4 bs)"
  by (cases bs rule: words32.cases) (simp_all add: numeral_eq_Suc)

lemma length_unread: "length (unread r) = remaining r"
  by (simp add: unread_def remaining_def)

lemma ReadFull_enough:
  "k \<le> remaining r \<Longrightarrow> ReadFull r k = (Inr (take k (unread r)), advance r k)"
  by (simp add: ReadFull_def unread_def advance_def)

lemma unread_advance_drop: "unread (advance r k) = drop k (unread r)"
  by (simp add: unread_def advance_def add.commute)

lemma remaining_after_short:
  "remaining (if remaining r = 0 then r else r\<lparr>pos := length (content r)\<rparr>) = 0"
  by (simp add: remaining_def)

lemma Decode_layerPointers_result:
  assumes "Decode_layerPointers r ptr acc = Some res"
  shows "(remaining r < 4 \<longrightarrow> ptr = 0) \<and>
         fst res = acc @ takeWhile (\<lambda>p. p \<noteq> 0) (words32 (unread r))"
proof (rule Decode_layerPointers.raw_induct
    [where P = "\<lambda>r ptr acc res. (remaining r < 4 \<longrightarrow> ptr = 0) \<and>
         fst res = acc @ takeWhile (\<lambda>p. p \<noteq> 0) (words32 (unread r))", OF _ assms])
  fix f r ptr acc res
  assume IH: "\<And>r ptr acc y. f r ptr acc = Some y \<Longrightarrow>
      (remaining r < 4 \<longrightarrow> ptr = 0) \<and>
      fst y = acc @ takeWhile (\<lambda>p. p \<noteq> 0) (words32 (unread r))"
    and eq: "(case ReadFull r 4 of
        (Inl err, r1) \<Rightarrow> if ptr = 0 then Some (acc, r1) else f r1 ptr (acc @ [ptr])
      | (Inr pb, r1) \<Rightarrow>
          if be32 pb = 0 then Some (acc, r1) else f r1 (be32 pb) (acc @ [be32 pb])) = Some res"
  show "(remaining r < 4 \<longrightarrow> ptr = 0) \<and>
        fst res = acc @ takeWhile (\<lambda>p. p \<noteq> 0) (words32 (unread r))"
  proof (cases "remaining r < 4")
    case True
    let ?r1 = "if remaining r = 0 then r else r\<lparr>pos := length (content r)\<rparr>"
    have rd: "ReadFull r 4 = (Inl (if remaining r = 0 then EOF else ErrUnexpectedEOF), ?r1)"
      using True by (rule ReadFull_short)
    have w: "words32 (unread r) = []"
      using True by (simp add: words32_short length_unread)
    show ?thesis
    proof (cases "ptr = 0")
      case True
      with eq rd w show ?thesis by auto
    next
      case False
      with eq rd have "f ?r1 ptr (acc @ [ptr]) = Some res" by simp
      from IH [OF this] have "remaining ?r1 < 4 \<longrightarrow> ptr = 0" by blast
      with False remaining_after_short [of r] show ?thesis by simp
    qed
  next
    case False
    then have rd: "ReadFull r 4 = (Inr (take 4 (unread r)), advance r 4)"
      by (intro ReadFull_enough) simp
    have w: "words32 (unread r) = be32 (take 4 (unread r)) # words32 (unread (advance r 4))"
      using False by (simp add: words32_long length_unread unread_advance_drop)
    show ?thesis
    proof (cases "be32 (take 4 (unread r)) = 0")
      case True
      with eq rd w False show ?thesis by auto
    next
      case nz: False
      with eq rd have "f (advance r 4) (be32 (take 4 (unread r)))
          (acc @ [be32 (take 4 (unread r))]) = Some res" by simp
      from IH [OF this] w nz False show ?thesis by simp
    qed
  qed
qed

lemma Decode_layerPointers_diverges:
  "remaining r < 4 \<Longrightarrow> ptr \<noteq> 0 \<Longrightarrow> Decode_layerPointers r ptr acc = None"
  using Decode_layerPointers_result [of r ptr acc] by (cases "Decode_layerPointers r ptr acc") auto

lemma Decode_layers_loaded:
  "Decode_layers r ptrs acc = Ok (layers, r') \<Longrightarrow>
   length layers = length acc + length ptrs \<and> take (length acc) layers = acc \<and>
   (\<forall>i < length ptrs. \<exists>ri'. loadLayer r (ptrs ! i) = Ok (layers ! (length acc + i), ri'))"
proof (induction ptrs arbitrary: r acc)
  case Nil
  then show ?case by simp
next
  case (Cons ptr ptrs)
  from Cons.prems obtain layer r1 where
    l: "loadLayer r ptr = Ok (layer, r1)" and
    rest: "Decode_layers r1 ptrs (acc @ [layer]) = Ok (layers, r')"
    by (auto split: outcome.splits)
  have same: "\<And>p. loadLayer r1 p = loadLayer r p"
    using loadLayer_content [OF l] by (rule loadLayer_cong)
  from Cons.IH [OF rest] have
    len: "length layers = length acc + 1 + length ptrs" and
    tk: "take (length acc + 1) layers = acc @ [layer]" and
    ih: "\<forall>i < length ptrs. \<exists>ri'. loadLayer r (ptrs ! i) = Ok (layers ! (length acc + 1 + i), ri')"
    by (simp_all add: same)
  have "take (length acc) layers = take (length acc) (take (length acc + 1) layers)"
    by (simp add: min_def)
  with tk have tk': "take (length acc) layers = acc" by simp
  have "layers ! length acc = take (length acc + 1) layers ! length acc" by simp
  with tk have nth: "layers ! length acc = layer" by simp
  show ?case
  proof (intro conjI allI impI)
    show "length layers = length acc + length (ptr # ptrs)" using len by simp
    show "take (length acc) layers = acc" by (rule tk')
  next
    fix i assume "i < length (ptr # ptrs)"
    show "\<exists>ri'. loadLayer r ((ptr # ptrs) ! i) = Ok (layers ! (length acc + i), ri')"
    proof (cases i)
      case 0
      with l nth show ?thesis by auto
    next
      case (Suc j)
      with \<open>i < length (ptr # ptrs)\<close> ih show ?thesis by auto
    qed
  qed
qed

lemma sample_loadLayer:
  "loadLayer \<lparr>content = sample, pos = 51\<rparr> 51 = Ok (sample_layer, \<lparr>content = sample, pos = 171\<rparr>)"
  by code_simp

lemma sample_Decode:
  "Decode \<lparr>content = sample, pos = 0\<rparr> =
     Some (Ok \<lparr>Width = 2, Height = 1, Layers = [sample_layer]\<rparr>)"
proof -
  have h: "ReadFull \<lparr>content = sample, pos = 0\<rparr> 26 = (Inr sample_header, \<lparr>content = sample, pos = 26\<rparr>)"
    by code_simp
  have d: "decode_fileHeader sample_header =
      \<lparr>fh_MagicID = bytes_of ''gimp xcf '', fh_Version = bytes_of ''file'',
       fh_VersionTerminator = 0, fh_Width = 2, fh_Height = 1, fh_ColorFormat = rgb\<rparr>"
    by code_simp
  have p: "Decode_props \<lparr>content = sample, pos = 26\<rparr> None = Inr (\<lparr>content = sample, pos = 43\<rparr>, None)"
    by code_simp
  have l: "Decode_layerPointers \<lparr>content = sample, pos = 43\<rparr> 0 [] =
      Some ([51], \<lparr>content = sample, pos = 51\<rparr>)"
    by code_simp
  show ?thesis
    by (simp add: Decode_def h d p l sample_loadLayer)
qed

text \<open>
  C9. For every successful decode, the canvas has the width and the height of the file
  header, and it has one layer for each offset of the layer offset list behind the canvas
  properties, in the order of the list: layer \<open>i\<close> of the canvas is the layer that
  \<open>loadLayer\<close> returns for this file at offset \<open>i\<close> of the list.
\<close>

theorem Decode_canvas:
  assumes "Decode r = Some (Ok c)"
  shows "\<exists>hb r1 r2 finalErr.
     ReadFull r 26 = (Inr hb, r1) \<and> Decode_props r1 None = Inr (r2, finalErr) \<and>
     Width c = fh_Width (decode_fileHeader hb) \<and> Height c = fh_Height (decode_fileHeader hb) \<and>
     length (Layers c) = length (layer_offsets (unread r2)) \<and>
     (\<forall>i < length (Layers c).
        \<exists>r'. loadLayer r (layer_offsets (unread r2) ! i) = Ok (Layers c ! i, r'))"
proof -
  from assms obtain hb r1 where h: "ReadFull r 26 = (Inr hb, r1)"
    by (cases "ReadFull r 26") (auto simp: Decode_def split: sum.splits)
  let ?header = "decode_fileHeader hb"
  from assms h obtain r2 finalErr where p: "Decode_props r1 None = Inr (r2, finalErr)"
    by (cases "Decode_props r1 None") (auto simp: Decode_def Let_def split: if_splits)
  from assms h p obtain ptrs r3 where l: "Decode_layerPointers r2 0 [] = Some (ptrs, r3)"
    by (cases "Decode_layerPointers r2 0 []") (auto simp: Decode_def Let_def split: if_splits)
  from assms h p l obtain layers r4 where
    ls: "Decode_layers r3 ptrs [] = Ok (layers, r4)" and
    c: "c = \<lparr>Width = fh_Width ?header, Height = fh_Height ?header, Layers = layers\<rparr>"
    by (cases "Decode_layers r3 ptrs []") (auto simp: Decode_def Let_def split: if_splits)
  from Decode_layerPointers_result [OF l] have ptrs: "ptrs = layer_offsets (unread r2)"
    by (simp add: layer_offsets_def)
  have "content r3 = content r"
    using ReadFull_content [OF h] Decode_props_content [OF p] Decode_layerPointers_content [OF l]
    by simp
  then have same: "\<And>p. loadLayer r3 p = loadLayer r p"
    by (rule loadLayer_cong)
  from Decode_layers_loaded [OF ls] have
    "length layers = length ptrs"
    "\<forall>i < length ptrs. \<exists>r'. loadLayer r (ptrs ! i) = Ok (layers ! i, r')"
    by (simp_all add: same)
  with h p c ptrs show ?thesis by auto
qed

theorem Decode_canvas_witness:
  "\<exists>hb r1 r2 finalErr.
     ReadFull \<lparr>content = sample, pos = 0\<rparr> 26 = (Inr hb, r1) \<and>
     Decode_props r1 None = Inr (r2, finalErr) \<and>
     Width \<lparr>Width = 2, Height = 1, Layers = [sample_layer]\<rparr> = fh_Width (decode_fileHeader hb) \<and>
     Height \<lparr>Width = 2, Height = 1, Layers = [sample_layer]\<rparr> = fh_Height (decode_fileHeader hb) \<and>
     length (Layers \<lparr>Width = 2, Height = 1, Layers = [sample_layer]\<rparr>) =
       length (layer_offsets (unread r2)) \<and>
     (\<forall>i < length (Layers \<lparr>Width = 2, Height = 1, Layers = [sample_layer]\<rparr>).
        \<exists>r'. loadLayer \<lparr>content = sample, pos = 0\<rparr> (layer_offsets (unread r2) ! i) =
          Ok (Layers \<lparr>Width = 2, Height = 1, Layers = [sample_layer]\<rparr> ! i, r'))"
  by (rule Decode_canvas [OF sample_Decode])

text \<open>
  C2 says that every failed step aborts \<^verbatim>\<open>Decode\<close> with that failure. Two steps do not.
  The error of the read in the layer pointer loop is dropped: a file that ends behind the
  canvas properties decodes, without an error, to a canvas with no layers. A failed skip
  of an unknown property assigns the error and goes on with the loop: the next header is
  read, and it is the error of that read which \<^verbatim>\<open>Decode\<close> returns.
\<close>

theorem Decode_drops_stream_errors:
  "Decode \<lparr>content = sample_header @ [0, 0, 0, 0,  0, 0, 0, 0], pos = 0\<rparr> =
     Some (Ok \<lparr>Width = 2, Height = 1, Layers = []\<rparr>) \<and>
   skipProperty \<lparr>content = sample_header @ [0, 0, 0, 99,  0, 0, 0, 10,  1, 2, 3], pos = 34\<rparr>
       \<lparr>ph_MagicID = 99, ph_Length = 10\<rparr> =
     (Some (Wrapped ''read XCF: unable to skip property: '' EOF),
      \<lparr>content = sample_header @ [0, 0, 0, 99,  0, 0, 0, 10,  1, 2, 3], pos = 37\<rparr>) \<and>
   Decode \<lparr>content = sample_header @ [0, 0, 0, 99,  0, 0, 0, 10,  1, 2, 3], pos = 0\<rparr> =
     Some (Err (Wrapped ''read XCF: error reading property header: '' EOF))"
  by code_simp

text \<open>
  A file that ends behind a layer pointer other than 0 keeps the loop running: the read
  fails again and again, and the old pointer is appended each time.
\<close>

lemma Decode_never_returns:
  "Decode \<lparr>content = sample_header @ [0, 0, 0, 0,  0, 0, 0, 0,  0, 0, 0, 51], pos = 0\<rparr> = None"
proof -
  let ?c = "sample_header @ [0, 0, 0, 0,  0, 0, 0, 0,  0, 0, 0, 51]"
  have h: "ReadFull \<lparr>content = ?c, pos = 0\<rparr> 26 = (Inr sample_header, \<lparr>content = ?c, pos = 26\<rparr>)"
    by code_simp
  have d: "decode_fileHeader sample_header =
      \<lparr>fh_MagicID = bytes_of ''gimp xcf '', fh_Version = bytes_of ''file'',
       fh_VersionTerminator = 0, fh_Width = 2, fh_Height = 1, fh_ColorFormat = rgb\<rparr>"
    by code_simp
  have p: "Decode_props \<lparr>content = ?c, pos = 26\<rparr> None = Inr (\<lparr>content = ?c, pos = 34\<rparr>, None)"
    by code_simp
  have r: "ReadFull \<lparr>content = ?c, pos = 34\<rparr> 4 = (Inr [0, 0, 0, 51], \<lparr>content = ?c, pos = 38\<rparr>)"
    by code_simp
  have b: "be32 [0, 0, 0, 51] = 51"
    by code_simp
  have "remaining \<lparr>content = ?c, pos = 38\<rparr> < 4"
    by code_simp
  then have "Decode_layerPointers \<lparr>content = ?c, pos = 38\<rparr> 51 [51] = None"
    by (rule Decode_layerPointers_diverges) simp
  then have l: "Decode_layerPointers \<lparr>content = ?c, pos = 34\<rparr> 0 [] = None"
    by (subst Decode_layerPointers.simps) (simp add: r b)
  show ?thesis
    by (simp add: Decode_def h d p l)
qed

section \<open>Verification of loadLayer\<close>

lemma be32_be32_bytes: "be32 (be32_bytes w) = w"
  apply (rule bit_word_eqI)
  apply (simp add: be32_def be32_bytes_def bit_simps)
  subgoal for n
    by (cases "n < 8"; cases "n < 16"; cases "n < 24") (auto simp: not_less)
  done

lemma length_be32_bytes: "length (be32_bytes w) = 4"
  by (simp add: be32_bytes_def)

lemma decode_propertyHeader_bytes:
  "decode_propertyHeader (be32_bytes m @ be32_bytes l) = \<lparr>ph_MagicID = m, ph_Length = l\<rparr>"
  by (simp add: decode_propertyHeader_def length_be32_bytes be32_be32_bytes)

lemma ReadFull_header:
  assumes "unread r = be32_bytes m @ be32_bytes l @ rest"
  shows "ReadFull r 8 = (Inr (be32_bytes m @ be32_bytes l), advance r 8)"
    and "unread (advance r 8) = rest"
proof -
  have u: "unread r = (be32_bytes m @ be32_bytes l) @ rest" using assms by simp
  show "ReadFull r 8 = (Inr (be32_bytes m @ be32_bytes l), advance r 8)"
    by (rule ReadFull_prefix [OF u]) (simp add: length_be32_bytes)
  show "unread (advance r 8) = rest"
    using unread_advance [OF u] by (simp add: length_be32_bytes)
qed

lemma ReadFull_word:
  assumes "unread r = be32_bytes w @ rest"
  shows "ReadFull r 4 = (Inr (be32_bytes w), advance r 4)"
    and "unread (advance r 4) = rest"
proof -
  show "ReadFull r 4 = (Inr (be32_bytes w), advance r 4)"
    by (rule ReadFull_prefix [OF assms]) (simp add: length_be32_bytes)
  show "unread (advance r 4) = rest"
    using unread_advance [OF assms] by (simp add: length_be32_bytes)
qed

lemma CopyN_Discard_prefix:
  assumes "unread r = bs @ rest"
  shows "CopyN_Discard r (length bs) = (None, advance r (length bs))"
proof -
  have "length (bs @ rest) = remaining r"
    using assms by (simp add: unread_def remaining_def flip: length_drop)
  then show ?thesis by (simp add: CopyN_Discard_def advance_def)
qed

lemma loadLayer_props_End:
  assumes "unread r = be32_bytes propEnd @ be32_bytes l @ rest"
  shows "loadLayer_props r v opc x y = Inr ((v, opc, x, y), advance r 8)"
  using ReadFull_header [OF assms]
  by (simp add: loadLayer_props.simps [of r] decode_propertyHeader_bytes)

lemma loadLayer_props_step_Offsets:
  assumes "unread r = encode_property (OffsetsProp l x' y') @ rest"
  shows "loadLayer_props r v opc x y = loadLayer_props (advance r 16) v opc x' y'"
proof -
  have u: "unread r = be32_bytes propOffsets @ be32_bytes l @ (be32_bytes x' @ be32_bytes y' @ rest)"
    using assms by simp
  note h = ReadFull_header [OF u]
  note a = ReadFull_word [OF h(2)]
  note b = ReadFull_word [OF a(2)]
  show ?thesis
    using h(1) a(1) b(1)
    by (simp add: loadLayer_props.simps [of r] decode_propertyHeader_bytes be32_be32_bytes
        advance_advance propEnd_def propOffsets_def)
qed

lemma loadLayer_props_step_Visible:
  assumes "unread r = encode_property (VisibleProp l val) @ rest"
  shows "loadLayer_props r v opc x y = loadLayer_props (advance r 12) (val \<noteq> 0) opc x y"
proof -
  have u: "unread r = be32_bytes propVisible @ be32_bytes l @ (be32_bytes val @ rest)"
    using assms by simp
  note h = ReadFull_header [OF u]
  note a = ReadFull_word [OF h(2)]
  show ?thesis
    using h(1) a(1)
    by (simp add: loadLayer_props.simps [of r] decode_propertyHeader_bytes be32_be32_bytes
        advance_advance propEnd_def propOffsets_def propVisible_def)
qed

lemma loadLayer_props_step_Opacity:
  assumes "unread r = encode_property (OpacityProp l val) @ rest"
  shows "loadLayer_props r v opc x y = loadLayer_props (advance r 12) v (ucast val) x y"
proof -
  have u: "unread r = be32_bytes propOpacity @ be32_bytes l @ (be32_bytes val @ rest)"
    using assms by simp
  note h = ReadFull_header [OF u]
  note a = ReadFull_word [OF h(2)]
  show ?thesis
    using h(1) a(1)
    by (simp add: loadLayer_props.simps [of r] decode_propertyHeader_bytes be32_be32_bytes
        advance_advance propEnd_def propOffsets_def propVisible_def propOpacity_def)
qed

lemma loadLayer_props_step_Other:
  assumes "unread r = encode_property (OtherProp magic payload) @ rest"
    and "wf_property (OtherProp magic payload)"
  shows "loadLayer_props r v opc x y = loadLayer_props (advance r (8 + length payload)) v opc x y"
proof -
  have u: "unread r = be32_bytes magic @ be32_bytes (word_of_nat (length payload)) @ (payload @ rest)"
    using assms by simp
  note h = ReadFull_header [OF u]
  have len: "unat (word_of_nat (length payload) :: u32) = length payload"
    using assms(2) by (simp add: unat_of_nat take_bit_nat_eq_self)
  have s: "skipProperty (advance r 8)
      \<lparr>ph_MagicID = magic, ph_Length = word_of_nat (length payload)\<rparr> =
      (None, advance r (8 + length payload))"
    using CopyN_Discard_prefix [OF h(2)] by (simp add: skipProperty_def len advance_advance)
  show ?thesis
    using h(1) s assms(2)
    by (simp add: loadLayer_props.simps [of r] decode_propertyHeader_bytes)
qed

lemma loadLayer_props_sequence:
  assumes "\<forall>p \<in> set ps. wf_property p"
    and "unread r = concat (map encode_property ps) @ be32_bytes propEnd @ be32_bytes l @ rest"
  shows "loadLayer_props r v opc x y =
     Inr ((if visible_values ps = [] then v else last (visible_values ps) \<noteq> 0,
           if opacity_values ps = [] then opc else ucast (last (opacity_values ps)),
           if offsets_values ps = [] then x else fst (last (offsets_values ps)),
           if offsets_values ps = [] then y else snd (last (offsets_values ps))),
          advance r (props_length ps + 8))"
  using assms
proof (induction ps arbitrary: r v opc x y)
  case Nil
  then show ?case
    using loadLayer_props_End [of r l rest v opc x y] by (simp add: props_length_def)
next
  case (Cons p ps)
  let ?tl = "concat (map encode_property ps) @ be32_bytes propEnd @ be32_bytes l @ rest"
  have u: "unread r = encode_property p @ ?tl" using Cons.prems(2) by simp
  have wf: "\<forall>p \<in> set ps. wf_property p" using Cons.prems(1) by simp
  have next_u: "unread (advance r (length (encode_property p))) = ?tl"
    using unread_advance [OF u] .
  show ?case
  proof (cases p)
    case (OffsetsProp len x' y')
    have n: "length (encode_property p) = 16"
      using OffsetsProp by (simp add: length_be32_bytes)
    have "loadLayer_props r v opc x y = loadLayer_props (advance r 16) v opc x' y'"
      using u OffsetsProp by (intro loadLayer_props_step_Offsets [where rest = ?tl]) simp
    also have "\<dots> = Inr ((if visible_values ps = [] then v else last (visible_values ps) \<noteq> 0,
           if opacity_values ps = [] then opc else ucast (last (opacity_values ps)),
           if offsets_values ps = [] then x' else fst (last (offsets_values ps)),
           if offsets_values ps = [] then y' else snd (last (offsets_values ps))),
          advance (advance r 16) (props_length ps + 8))"
      using next_u n by (intro Cons.IH [OF wf]) simp
    finally show ?thesis
      using OffsetsProp n by (simp add: advance_advance props_length_def length_be32_bytes)
  next
    case (VisibleProp len val)
    have n: "length (encode_property p) = 12"
      using VisibleProp by (simp add: length_be32_bytes)
    have "loadLayer_props r v opc x y = loadLayer_props (advance r 12) (val \<noteq> 0) opc x y"
      using u VisibleProp by (intro loadLayer_props_step_Visible [where rest = ?tl]) simp
    also have "\<dots> = Inr ((if visible_values ps = [] then val \<noteq> 0 else last (visible_values ps) \<noteq> 0,
           if opacity_values ps = [] then opc else ucast (last (opacity_values ps)),
           if offsets_values ps = [] then x else fst (last (offsets_values ps)),
           if offsets_values ps = [] then y else snd (last (offsets_values ps))),
          advance (advance r 12) (props_length ps + 8))"
      using next_u n by (intro Cons.IH [OF wf]) simp
    finally show ?thesis
      using VisibleProp n by (simp add: advance_advance props_length_def length_be32_bytes)
  next
    case (OpacityProp len val)
    have n: "length (encode_property p) = 12"
      using OpacityProp by (simp add: length_be32_bytes)
    have "loadLayer_props r v opc x y = loadLayer_props (advance r 12) v (ucast val) x y"
      using u OpacityProp by (intro loadLayer_props_step_Opacity [where rest = ?tl]) simp
    also have "\<dots> = Inr ((if visible_values ps = [] then v else last (visible_values ps) \<noteq> 0,
           if opacity_values ps = [] then ucast val else ucast (last (opacity_values ps)),
           if offsets_values ps = [] then x else fst (last (offsets_values ps)),
           if offsets_values ps = [] then y else snd (last (offsets_values ps))),
          advance (advance r 12) (props_length ps + 8))"
      using next_u n by (intro Cons.IH [OF wf]) simp
    finally show ?thesis
      using OpacityProp n by (simp add: advance_advance props_length_def length_be32_bytes)
  next
    case (OtherProp magic payload)
    have n: "length (encode_property p) = 8 + length payload"
      using OtherProp by (simp add: length_be32_bytes)
    have "loadLayer_props r v opc x y = loadLayer_props (advance r (8 + length payload)) v opc x y"
      using u OtherProp Cons.prems(1)
      by (intro loadLayer_props_step_Other [where rest = ?tl]) auto
    also have "\<dots> = Inr ((if visible_values ps = [] then v else last (visible_values ps) \<noteq> 0,
           if opacity_values ps = [] then opc else ucast (last (opacity_values ps)),
           if offsets_values ps = [] then x else fst (last (offsets_values ps)),
           if offsets_values ps = [] then y else snd (last (offsets_values ps))),
          advance (advance r (8 + length payload)) (props_length ps + 8))"
      using next_u n by (intro Cons.IH [OF wf]) simp
    finally show ?thesis
      using OtherProp n by (simp add: advance_advance props_length_def length_be32_bytes add.assoc)
  qed
qed

lemma readImageData_Bounds:
  assumes "readImageData r lh layerX layerY offset = Ok (img, r')"
  shows "Bounds img = Rect layerX layerY (layerX + int (unat (lh_Width lh)))
           (layerY + int (unat (lh_Height lh)))"
  using assms
  by (auto simp: readImageData_def Let_def NewRGBA_def
      split: prod.splits sum.splits option.splits outcome.splits if_splits)

lemma sample_plain_loadLayer:
  "loadLayer \<lparr>content = sample_plain, pos = 0\<rparr> 0 =
     Ok (plain_layer, \<lparr>content = sample_plain, pos = 64\<rparr>)"
  by code_simp

text \<open>
  C7. For every layer that loads, with the properties \<open>ps\<close> behind its name: the layer is
  visible when \<open>ps\<close> has no Visible property, and otherwise iff the value of the last one
  is not zero; its opacity is 0 when \<open>ps\<close> has no Opacity property, and otherwise the low
  8 bits of the value of the last one; its image starts at (0, 0) when \<open>ps\<close> has no Offsets
  property, and otherwise at the two signed values of the last one.
\<close>

theorem loadLayer_property_defaults:
  assumes "loadLayer r offset = Ok (layer, r')"
    and "ReadFull (Seek r (unat offset)) 12 = (Inr hb, r1)"
    and "readString r1 = Inr (name, r2)"
    and "unread r2 = concat (map encode_property ps) @ be32_bytes propEnd @ be32_bytes l @ rest"
    and "\<forall>p \<in> set ps. wf_property p"
  shows "Visible layer = (if visible_values ps = [] then True else last (visible_values ps) \<noteq> 0) \<and>
         Opacity layer = (if opacity_values ps = [] then 0 else ucast (last (opacity_values ps))) \<and>
         (MinX (Bounds (Image layer)), MinY (Bounds (Image layer))) =
           (if offsets_values ps = [] then (0, 0)
            else (sint (fst (last (offsets_values ps))), sint (snd (last (offsets_values ps)))))"
proof -
  let ?v = "if visible_values ps = [] then True else last (visible_values ps) \<noteq> 0"
  let ?o = "if opacity_values ps = [] then 0 else ucast (last (opacity_values ps)) :: byte"
  let ?x = "if offsets_values ps = [] then 0 else fst (last (offsets_values ps))"
  let ?y = "if offsets_values ps = [] then 0 else snd (last (offsets_values ps))"
  have p: "loadLayer_props r2 True 0 0 0 = Inr ((?v, ?o, ?x, ?y), advance r2 (props_length ps + 8))"
    using assms(5,4) by (rule loadLayer_props_sequence)
  from assms(1,2,3) p obtain img r5 r6 pp where
    i: "readImageData r5 (decode_layerHeader hb) (sint ?x) (sint ?y) pp = Ok (img, r6)" and
    l: "layer = \<lparr>Image = img, Name = name, Visible = ?v, Opacity = ?o\<rparr>"
    by (auto simp: loadLayer_def Let_def split: if_splits prod.splits sum.splits outcome.splits)
  from readImageData_Bounds [OF i] have "MinX (Bounds img) = sint ?x" "MinY (Bounds img) = sint ?y"
    by (simp_all add: Rect_def)
  with l show ?thesis by simp
qed

theorem loadLayer_property_defaults_witness:
  "Visible plain_layer = True \<and> Opacity plain_layer = 0 \<and>
   (MinX (Bounds (Image plain_layer)), MinY (Bounds (Image plain_layer))) = (0, 0) \<and>
   Visible sample_layer = (1 \<noteq> (0 :: u32)) \<and> Opacity sample_layer = ucast (255 :: u32) \<and>
   (MinX (Bounds (Image sample_layer)), MinY (Bounds (Image sample_layer))) =
     (sint (5 :: u32), sint (0xFFFFFFFE :: u32))"
proof -
  have h1: "ReadFull (Seek \<lparr>content = sample_plain, pos = 0\<rparr> (unat (0 :: u32))) 12 =
      (Inr (replicate 12 0), \<lparr>content = sample_plain, pos = 12\<rparr>)"
    by code_simp
  have s1: "readString \<lparr>content = sample_plain, pos = 12\<rparr> =
      Inr ([], \<lparr>content = sample_plain, pos = 16\<rparr>)"
    by code_simp
  have u1: "unread \<lparr>content = sample_plain, pos = 16\<rparr> =
      concat (map encode_property []) @ be32_bytes propEnd @ be32_bytes 0 @ drop 24 sample_plain"
    by code_simp
  have h2: "ReadFull (Seek \<lparr>content = sample, pos = 51\<rparr> (unat (51 :: u32))) 12 =
      (Inr [0, 0, 0, 2,  0, 0, 0, 1,  0, 0, 0, 1], \<lparr>content = sample, pos = 63\<rparr>)"
    by code_simp
  have s2: "readString \<lparr>content = sample, pos = 63\<rparr> =
      Inr ([0x62, 0x67], \<lparr>content = sample, pos = 70\<rparr>)"
    by code_simp
  have u2: "unread \<lparr>content = sample, pos = 70\<rparr> =
      concat (map encode_property
        [OpacityProp 4 255, VisibleProp 4 1, OffsetsProp 8 5 0xFFFFFFFE]) @
      be32_bytes propEnd @ be32_bytes 0 @ drop 118 sample"
    by code_simp
  from loadLayer_property_defaults [OF sample_plain_loadLayer h1 s1 u1]
    loadLayer_property_defaults [OF sample_loadLayer h2 s2 u2]
  show ?thesis by simp
qed

section \<open>Verification of the tile reassembly\<close>

lemma tile_line_ok:
  assumes "base + 4 * (x + k) \<le> length pix"
    and "k = 0 \<or> dataIndex + k + (if alpha then 3 else 2) * ofs \<le> n"
  shows "\<exists>pix'. tile_line alpha data n ofs base x k pix dataIndex = Some (pix', dataIndex + k) \<and>
     length pix' = length pix \<and>
     (\<forall>j < k. pix' ! (base + 4 * (x + j)) = data ! (dataIndex + j) \<and>
               pix' ! (base + 4 * (x + j) + 1) = data ! (dataIndex + j + ofs) \<and>
               pix' ! (base + 4 * (x + j) + 2) = data ! (dataIndex + j + 2 * ofs) \<and>
               pix' ! (base + 4 * (x + j) + 3) =
                 (if alpha then data ! (dataIndex + j + 3 * ofs) else 255)) \<and>
     (\<forall>i. i < base + 4 * x \<or> base + 4 * (x + k) \<le> i \<longrightarrow> pix' ! i = pix ! i)"
  using assms
proof (induction k arbitrary: x pix dataIndex)
  case 0
  then show ?case by simp
next
  case (Suc k)
  let ?p = "base + x * 4"
  let ?a = "if alpha then data ! (dataIndex + 3 * ofs) else 255"
  let ?pix1 = "pix[?p := data ! dataIndex, ?p + 1 := data ! (dataIndex + ofs),
                   ?p + 2 := data ! (dataIndex + 2 * ofs), ?p + 3 := ?a]"
  have in_range: "?p + 3 < length pix" "dataIndex + (if alpha then 3 else 2) * ofs < n"
    using Suc.prems by (simp_all split: if_splits)
  have step: "tile_line alpha data n ofs base x (Suc k) pix dataIndex =
      tile_line alpha data n ofs base (x + 1) k ?pix1 (dataIndex + 1)"
    using in_range by simp
  have "\<exists>pix'. tile_line alpha data n ofs base (x + 1) k ?pix1 (dataIndex + 1) =
        Some (pix', dataIndex + 1 + k) \<and>
     length pix' = length ?pix1 \<and>
     (\<forall>j < k. pix' ! (base + 4 * (x + 1 + j)) = data ! (dataIndex + 1 + j) \<and>
               pix' ! (base + 4 * (x + 1 + j) + 1) = data ! (dataIndex + 1 + j + ofs) \<and>
               pix' ! (base + 4 * (x + 1 + j) + 2) = data ! (dataIndex + 1 + j + 2 * ofs) \<and>
               pix' ! (base + 4 * (x + 1 + j) + 3) =
                 (if alpha then data ! (dataIndex + 1 + j + 3 * ofs) else 255)) \<and>
     (\<forall>i. i < base + 4 * (x + 1) \<or> base + 4 * (x + 1 + k) \<le> i \<longrightarrow> pix' ! i = ?pix1 ! i)"
    using Suc.prems by (intro Suc.IH) (auto split: if_splits)
  then obtain pix' where
    r: "tile_line alpha data n ofs base (x + 1) k ?pix1 (dataIndex + 1) = Some (pix', dataIndex + 1 + k)"
    and len: "length pix' = length ?pix1"
    and new: "\<And>j. j < k \<Longrightarrow>
               pix' ! (base + 4 * (x + 1 + j)) = data ! (dataIndex + 1 + j) \<and>
               pix' ! (base + 4 * (x + 1 + j) + 1) = data ! (dataIndex + 1 + j + ofs) \<and>
               pix' ! (base + 4 * (x + 1 + j) + 2) = data ! (dataIndex + 1 + j + 2 * ofs) \<and>
               pix' ! (base + 4 * (x + 1 + j) + 3) =
                 (if alpha then data ! (dataIndex + 1 + j + 3 * ofs) else 255)"
    and old: "\<And>i. i < base + 4 * (x + 1) \<or> base + 4 * (x + 1 + k) \<le> i \<Longrightarrow> pix' ! i = ?pix1 ! i"
    by blast
  have first: "?pix1 ! ?p = data ! dataIndex" "?pix1 ! (?p + 1) = data ! (dataIndex + ofs)"
    "?pix1 ! (?p + 2) = data ! (dataIndex + 2 * ofs)" "?pix1 ! (?p + 3) = ?a"
    using in_range(1) by simp_all
  have outside: "\<And>i. i < ?p \<or> ?p + 4 \<le> i \<Longrightarrow> ?pix1 ! i = pix ! i"
    by auto
  show ?case
  proof (intro exI conjI allI impI)
    show "tile_line alpha data n ofs base x (Suc k) pix dataIndex = Some (pix', dataIndex + Suc k)"
      using step r by simp
    show "length pix' = length pix" using len by simp
  next
    fix j assume j: "j < Suc k"
    show "pix' ! (base + 4 * (x + j)) = data ! (dataIndex + j)"
      "pix' ! (base + 4 * (x + j) + 1) = data ! (dataIndex + j + ofs)"
      "pix' ! (base + 4 * (x + j) + 2) = data ! (dataIndex + j + 2 * ofs)"
      "pix' ! (base + 4 * (x + j) + 3) = (if alpha then data ! (dataIndex + j + 3 * ofs) else 255)"
    proof -
      consider "j = 0" | j' where "j = Suc j'" "j' < k" using j by (cases j) auto
      then have "pix' ! (base + 4 * (x + j)) = data ! (dataIndex + j) \<and>
          pix' ! (base + 4 * (x + j) + 1) = data ! (dataIndex + j + ofs) \<and>
          pix' ! (base + 4 * (x + j) + 2) = data ! (dataIndex + j + 2 * ofs) \<and>
          pix' ! (base + 4 * (x + j) + 3) = (if alpha then data ! (dataIndex + j + 3 * ofs) else 255)"
      proof cases
        case 1
        have "pix' ! (?p + 0) = ?pix1 ! (?p + 0)" "pix' ! (?p + 1) = ?pix1 ! (?p + 1)"
          "pix' ! (?p + 2) = ?pix1 ! (?p + 2)" "pix' ! (?p + 3) = ?pix1 ! (?p + 3)"
          by (intro old; simp)+
        with first 1 show ?thesis by (simp add: mult.commute)
      next
        case 2
        with new [of j'] show ?thesis by (simp add: add.assoc)
      qed
      then show "pix' ! (base + 4 * (x + j)) = data ! (dataIndex + j)"
        "pix' ! (base + 4 * (x + j) + 1) = data ! (dataIndex + j + ofs)"
        "pix' ! (base + 4 * (x + j) + 2) = data ! (dataIndex + j + 2 * ofs)"
        "pix' ! (base + 4 * (x + j) + 3) = (if alpha then data ! (dataIndex + j + 3 * ofs) else 255)"
        by simp_all
    qed
  next
    fix i assume i: "i < base + 4 * x \<or> base + 4 * (x + Suc k) \<le> i"
    then have "pix' ! i = ?pix1 ! i" by (intro old) auto
    also have "\<dots> = pix ! i" using i by (intro outside) auto
    finally show "pix' ! i = pix ! i" .
  qed
qed

lemma tile_lines_ok:
  assumes cf: "colorFormat = rgbAlpha \<or> colorFormat = rgbNoAlpha"
    and fit: "4 * (left + w) \<le> stride"
    and rows: "stride * (y + k) \<le> length pix"
    and src: "k * w = 0 \<or>
        dataIndex + k * w + (if colorFormat = rgbAlpha then 3 else 2) * ofs \<le> n"
    and ofs: "ofs = n div (if colorFormat = rgbAlpha then 4 else 3)"
  shows "\<exists>pix'. tile_lines colorFormat data n stride left w y k pix dataIndex = Some pix' \<and>
     length pix' = length pix \<and>
     (\<forall>row < k. \<forall>col < w.
        pix' ! (stride * (y + row) + 4 * (left + col)) = data ! (dataIndex + row * w + col) \<and>
        pix' ! (stride * (y + row) + 4 * (left + col) + 1) =
          data ! (dataIndex + row * w + col + ofs) \<and>
        pix' ! (stride * (y + row) + 4 * (left + col) + 2) =
          data ! (dataIndex + row * w + col + 2 * ofs) \<and>
        pix' ! (stride * (y + row) + 4 * (left + col) + 3) =
          (if colorFormat = rgbAlpha then data ! (dataIndex + row * w + col + 3 * ofs) else 255)) \<and>
     (\<forall>i. (\<forall>row < k. i < stride * (y + row) + 4 * left \<or>
                       stride * (y + row) + 4 * (left + w) \<le> i) \<longrightarrow> pix' ! i = pix ! i)"
  using rows src
proof (induction k arbitrary: y pix dataIndex)
  case 0
  then show ?case by simp
next
  case (Suc k)
  let ?alpha = "colorFormat = rgbAlpha"
  let ?base = "stride * y"
  have mono: "\<And>a b. a \<le> b \<Longrightarrow> stride * a \<le> stride * b" by simp
  have next_row: "?base + stride = stride * (y + 1)" by simp
  have m0: "stride * y \<le> stride * (y + Suc k)" by (rule mono) simp
  have m1: "stride * (y + 1) \<le> stride * (y + Suc k)" by (rule mono) simp
  have len0: "\<not> length pix < ?base"
    using Suc.prems(1) m0 by linarith
  have line_fit: "?base + 4 * (left + w) \<le> length pix"
    using Suc.prems(1) fit m1 next_row by linarith
  have line_src: "w = 0 \<or> dataIndex + w + (if ?alpha then 3 else 2) * ofs \<le> n"
    using Suc.prems(2) by (auto split: if_splits)
  from tile_line_ok [OF line_fit line_src, of data]
  obtain pix1 where
    l: "tile_line ?alpha data n ofs ?base left w pix dataIndex = Some (pix1, dataIndex + w)"
    and len1: "length pix1 = length pix"
    and new1: "\<And>j. j < w \<Longrightarrow>
        pix1 ! (?base + 4 * (left + j)) = data ! (dataIndex + j) \<and>
        pix1 ! (?base + 4 * (left + j) + 1) = data ! (dataIndex + j + ofs) \<and>
        pix1 ! (?base + 4 * (left + j) + 2) = data ! (dataIndex + j + 2 * ofs) \<and>
        pix1 ! (?base + 4 * (left + j) + 3) =
          (if ?alpha then data ! (dataIndex + j + 3 * ofs) else 255)"
    and old1: "\<And>i. i < ?base + 4 * left \<or> ?base + 4 * (left + w) \<le> i \<Longrightarrow> pix1 ! i = pix ! i"
    by blast
  have step: "tile_lines colorFormat data n stride left w y (Suc k) pix dataIndex =
      tile_lines colorFormat data n stride left w (y + 1) k pix1 (dataIndex + w)"
  proof (cases ?alpha)
    case True
    with len0 l ofs show ?thesis by simp
  next
    case False
    with cf have "colorFormat = rgbNoAlpha" by simp
    with False len0 l ofs show ?thesis by simp
  qed
  have rows': "stride * (y + 1 + k) \<le> length pix1"
    using Suc.prems(1) len1 by (simp add: add.commute add.left_commute)
  have src': "k * w = 0 \<or> dataIndex + w + k * w + (if ?alpha then 3 else 2) * ofs \<le> n"
    using Suc.prems(2) by (auto simp: add.assoc)
  from Suc.IH [OF rows' src']
  obtain pix' where
    r: "tile_lines colorFormat data n stride left w (y + 1) k pix1 (dataIndex + w) = Some pix'"
    and len: "length pix' = length pix1"
    and new: "\<And>row col. row < k \<Longrightarrow> col < w \<Longrightarrow>
        pix' ! (stride * (y + 1 + row) + 4 * (left + col)) = data ! (dataIndex + w + row * w + col) \<and>
        pix' ! (stride * (y + 1 + row) + 4 * (left + col) + 1) =
          data ! (dataIndex + w + row * w + col + ofs) \<and>
        pix' ! (stride * (y + 1 + row) + 4 * (left + col) + 2) =
          data ! (dataIndex + w + row * w + col + 2 * ofs) \<and>
        pix' ! (stride * (y + 1 + row) + 4 * (left + col) + 3) =
          (if ?alpha then data ! (dataIndex + w + row * w + col + 3 * ofs) else 255)"
    and old: "\<And>i. (\<forall>row < k. i < stride * (y + 1 + row) + 4 * left \<or>
                       stride * (y + 1 + row) + 4 * (left + w) \<le> i) \<Longrightarrow> pix' ! i = pix1 ! i"
    by blast
  have below: "\<And>i row. i < ?base + 4 * (left + w) \<Longrightarrow> i < stride * (y + 1 + row) + 4 * left"
  proof -
    fix i row assume "i < ?base + 4 * (left + w)"
    with fit next_row have "i < stride * (y + 1)" by linarith
    also have "\<dots> \<le> stride * (y + 1 + row)" by (rule mono) simp
    finally show "i < stride * (y + 1 + row) + 4 * left" by simp
  qed
  show ?case
  proof (intro exI conjI allI impI)
    show "tile_lines colorFormat data n stride left w y (Suc k) pix dataIndex = Some pix'"
      using step r by simp
    show "length pix' = length pix" using len len1 by simp
  next
    fix row col assume rc: "row < Suc k" "col < w"
    have "pix' ! (stride * (y + row) + 4 * (left + col)) = data ! (dataIndex + row * w + col) \<and>
        pix' ! (stride * (y + row) + 4 * (left + col) + 1) =
          data ! (dataIndex + row * w + col + ofs) \<and>
        pix' ! (stride * (y + row) + 4 * (left + col) + 2) =
          data ! (dataIndex + row * w + col + 2 * ofs) \<and>
        pix' ! (stride * (y + row) + 4 * (left + col) + 3) =
          (if ?alpha then data ! (dataIndex + row * w + col + 3 * ofs) else 255)"
    proof (cases row)
      case 0
      have "\<And>c. c < 4 \<Longrightarrow> pix' ! (?base + 4 * (left + col) + c) = pix1 ! (?base + 4 * (left + col) + c)"
      proof -
        fix c :: nat assume "c < 4"
        with rc(2) have "?base + 4 * (left + col) + c < ?base + 4 * (left + w)" by simp
        then show "pix' ! (?base + 4 * (left + col) + c) = pix1 ! (?base + 4 * (left + col) + c)"
          using below by (intro old) blast
      qed
      from this [of 0] this [of 1] this [of 2] this [of 3] new1 [OF rc(2)] 0
      show ?thesis by simp
    next
      case (Suc row')
      with rc new [of row' col] show ?thesis by (simp add: add.assoc add.left_commute)
    qed
    then show "pix' ! (stride * (y + row) + 4 * (left + col)) = data ! (dataIndex + row * w + col)"
      "pix' ! (stride * (y + row) + 4 * (left + col) + 1) = data ! (dataIndex + row * w + col + ofs)"
      "pix' ! (stride * (y + row) + 4 * (left + col) + 2) =
         data ! (dataIndex + row * w + col + 2 * ofs)"
      "pix' ! (stride * (y + row) + 4 * (left + col) + 3) =
         (if ?alpha then data ! (dataIndex + row * w + col + 3 * ofs) else 255)"
      by simp_all
  next
    fix i
    assume out: "\<forall>row < Suc k. i < stride * (y + row) + 4 * left \<or>
        stride * (y + row) + 4 * (left + w) \<le> i"
    have "\<forall>row < k. i < stride * (y + 1 + row) + 4 * left \<or>
        stride * (y + 1 + row) + 4 * (left + w) \<le> i"
    proof (intro allI impI)
      fix row assume "row < k"
      with out have "i < stride * (y + Suc row) + 4 * left \<or>
          stride * (y + Suc row) + 4 * (left + w) \<le> i" by blast
      then show "i < stride * (y + 1 + row) + 4 * left \<or>
          stride * (y + 1 + row) + 4 * (left + w) \<le> i" by (simp add: add.commute add.left_commute)
    qed
    then have "pix' ! i = pix1 ! i" by (rule old)
    also have "\<dots> = pix ! i" using out [rule_format, of 0] by (intro old1) simp
    finally show "pix' ! i = pix ! i" .
  qed
qed

lemma outside_tile_index:
  fixes W :: nat
  assumes "X < W" and "c < 4" and "left + w \<le> W"
    and "\<not> (left \<le> X \<and> X < left + w \<and> tp \<le> Y \<and> Y < tp + h)"
    and "row < h"
  shows "4 * W * Y + 4 * X + c < 4 * W * (tp + row) + 4 * left \<or>
         4 * W * (tp + row) + 4 * (left + w) \<le> 4 * W * Y + 4 * X + c"
proof -
  have mono: "\<And>a b. a \<le> b \<Longrightarrow> 4 * W * a \<le> 4 * W * b" by simp
  have nxt: "\<And>a. 4 * W * a + 4 * W = 4 * W * (a + 1)" by simp
  consider "Y = tp + row" | "Y < tp + row" | "tp + row < Y" by linarith
  then show ?thesis
  proof cases
    case 1
    with assms show ?thesis by auto
  next
    case 2
    then have "4 * W * (Y + 1) \<le> 4 * W * (tp + row)" by (intro mono) simp
    with nxt [of Y] assms(1,2) show ?thesis by linarith
  next
    case 3
    then have "4 * W * (tp + row + 1) \<le> 4 * W * Y" by (intro mono) simp
    moreover have "4 * (left + w) \<le> 4 * W" using assms(3) by simp
    ultimately have "4 * W * (tp + row) + 4 * (left + w) \<le> 4 * W * Y + 4 * X + c"
      using nxt [of "tp + row"] by linarith
    then show ?thesis by blast
  qed
qed

lemma readTile_shown:
  assumes fmt: "colorFormat = rgbAlpha \<and> bytesPerPixel = 4 \<or>
                colorFormat = rgbNoAlpha \<and> bytesPerPixel = 3"
    and img: "Stride img = 4 * W" "length pix = 4 * W * H"
      "Bounds img = Rect lx ly (lx + int W) (ly + int H)"
    and inside: "tileX * 64 + tileW g tileX \<le> W" "tileY * 64 + tileH g tileY \<le> H"
    and rt: "readTile colorFormat bytesPerPixel (Stride img) g tileY tileX r buffer pix =
       Ok (r', buffer', pix')"
  shows "decodeRLE r buffer (tileW g tileX * tileH g tileY * bytesPerPixel) = Ok (buffer', r')"
    and "length pix' = length pix"
    and "tile_shown (img\<lparr>Pix := pix'\<rparr>) lx ly colorFormat (tileX * 64) (tileY * 64)
           (tileW g tileX) (tileH g tileY) buffer'"
    and "\<forall>X < W. \<forall>Y < H.
        \<not> (tileX * 64 \<le> X \<and> X < tileX * 64 + tileW g tileX \<and>
           tileY * 64 \<le> Y \<and> Y < tileY * 64 + tileH g tileY) \<longrightarrow>
        RGBAAt (img\<lparr>Pix := pix'\<rparr>) (lx + int X) (ly + int Y) =
          RGBAAt (img\<lparr>Pix := pix\<rparr>) (lx + int X) (ly + int Y)"
proof -
  let ?w = "tileW g tileX" and ?h = "tileH g tileY"
  let ?left = "tileX * 64" and ?top = "tileY * 64"
  let ?n = "?w * ?h * bytesPerPixel"
  let ?alpha = "colorFormat = rgbAlpha"
  from rt have dec: "decodeRLE r buffer ?n = Ok (buffer', r')"
    and tl: "tile_lines colorFormat buffer' ?n (4 * W) ?left ?w ?top ?h pix 0 = Some pix'"
    by (auto simp: readTile_def Let_def img(1) split: if_splits outcome.splits option.splits)
  have ne: "rgbNoAlpha \<noteq> rgbAlpha" by (simp add: rgbNoAlpha_def rgbAlpha_def)
  have cf: "colorFormat = rgbAlpha \<or> colorFormat = rgbNoAlpha" using fmt by blast
  have bpp: "bytesPerPixel = (if ?alpha then 4 else 3)" using fmt ne by auto
  have ofs: "?w * ?h = ?n div (if ?alpha then 4 else 3)" using bpp by simp
  have fit: "4 * (?left + ?w) \<le> 4 * W" using inside(1) by simp
  have "4 * W * (?top + ?h) \<le> 4 * W * H" using inside(2) by simp
  then have rows: "4 * W * (?top + ?h) \<le> length pix" using img(2) by simp
  have src: "?h * ?w = 0 \<or> 0 + ?h * ?w + (if ?alpha then 3 else 2) * (?w * ?h) \<le> ?n"
    using bpp by (simp add: mult.commute)
  from tile_lines_ok [OF cf fit rows src ofs, of buffer'] tl
  have len: "length pix' = length pix"
    and new: "\<And>row col. row < ?h \<Longrightarrow> col < ?w \<Longrightarrow>
        pix' ! (4 * W * (?top + row) + 4 * (?left + col)) = buffer' ! (0 + row * ?w + col) \<and>
        pix' ! (4 * W * (?top + row) + 4 * (?left + col) + 1) =
          buffer' ! (0 + row * ?w + col + ?w * ?h) \<and>
        pix' ! (4 * W * (?top + row) + 4 * (?left + col) + 2) =
          buffer' ! (0 + row * ?w + col + 2 * (?w * ?h)) \<and>
        pix' ! (4 * W * (?top + row) + 4 * (?left + col) + 3) =
          (if ?alpha then buffer' ! (0 + row * ?w + col + 3 * (?w * ?h)) else 255)"
    and old: "\<And>i. (\<forall>row < ?h. i < 4 * W * (?top + row) + 4 * ?left \<or>
                       4 * W * (?top + row) + 4 * (?left + ?w) \<le> i) \<Longrightarrow> pix' ! i = pix ! i"
    by auto
  have off: "\<And>X Y p. PixOffset (img\<lparr>Pix := p\<rparr>) (lx + int X) (ly + int Y) = 4 * W * Y + 4 * X"
    by (simp add: PixOffset_def img Rect_def)
  have inb: "\<And>X Y p. X < W \<Longrightarrow> Y < H \<Longrightarrow>
      RGBAAt (img\<lparr>Pix := p\<rparr>) (lx + int X) (ly + int Y) =
        (p ! (4 * W * Y + 4 * X), p ! (4 * W * Y + 4 * X + 1), p ! (4 * W * Y + 4 * X + 2),
         p ! (4 * W * Y + 4 * X + 3))"
    using off by (simp add: RGBAAt_def img Rect_def Let_def)
  show "decodeRLE r buffer ?n = Ok (buffer', r')" by (rule dec)
  show "length pix' = length pix" by (rule len)
  show "tile_shown (img\<lparr>Pix := pix'\<rparr>) lx ly colorFormat ?left ?top ?w ?h buffer'"
    unfolding tile_shown_def
  proof (intro allI impI)
    fix row col assume rc: "row < ?h" "col < ?w"
    then have "?left + col < W" "?top + row < H" using inside by simp_all
    from inb [OF this] new [OF rc]
    show "RGBAAt (img\<lparr>Pix := pix'\<rparr>) (lx + int (?left + col)) (ly + int (?top + row)) =
          (buffer' ! (row * ?w + col), buffer' ! (?w * ?h + row * ?w + col),
           buffer' ! (2 * (?w * ?h) + row * ?w + col),
           if ?alpha then buffer' ! (3 * (?w * ?h) + row * ?w + col) else 255)"
      by (simp add: ac_simps)
  qed
  show "\<forall>X < W. \<forall>Y < H.
        \<not> (?left \<le> X \<and> X < ?left + ?w \<and> ?top \<le> Y \<and> Y < ?top + ?h) \<longrightarrow>
        RGBAAt (img\<lparr>Pix := pix'\<rparr>) (lx + int X) (ly + int Y) =
          RGBAAt (img\<lparr>Pix := pix\<rparr>) (lx + int X) (ly + int Y)"
  proof (intro allI impI)
    fix X Y
    assume XY: "X < W" "Y < H"
      and out: "\<not> (?left \<le> X \<and> X < ?left + ?w \<and> ?top \<le> Y \<and> Y < ?top + ?h)"
    have same: "\<And>c. c < 4 \<Longrightarrow> pix' ! (4 * W * Y + 4 * X + c) = pix ! (4 * W * Y + 4 * X + c)"
    proof -
      fix c :: nat assume c: "c < 4"
      show "pix' ! (4 * W * Y + 4 * X + c) = pix ! (4 * W * Y + 4 * X + c)"
      proof (rule old, intro allI impI)
        fix row assume "row < ?h"
        from outside_tile_index [OF XY(1) c inside(1) out this]
        show "4 * W * Y + 4 * X + c < 4 * W * (?top + row) + 4 * ?left \<or>
              4 * W * (?top + row) + 4 * (?left + ?w) \<le> 4 * W * Y + 4 * X + c" .
      qed
    qed
    from inb [OF XY, of pix'] inb [OF XY, of pix] same [of 0] same [of 1] same [of 2] same [of 3]
    show "RGBAAt (img\<lparr>Pix := pix'\<rparr>) (lx + int X) (ly + int Y) =
        RGBAAt (img\<lparr>Pix := pix\<rparr>) (lx + int X) (ly + int Y)"
      by simp
  qed
qed

lemma tile_shown_transfer:
  assumes "tile_shown A lx ly cf left tp w h data"
    and "\<And>row col. row < h \<Longrightarrow> col < w \<Longrightarrow>
        RGBAAt B (lx + int (left + col)) (ly + int (tp + row)) =
        RGBAAt A (lx + int (left + col)) (ly + int (tp + row))"
  shows "tile_shown B lx ly cf left tp w h data"
  using assms unfolding tile_shown_def by simp

lemma readTiles_row_shown:
  assumes fmt: "colorFormat = rgbAlpha \<and> bytesPerPixel = 4 \<or>
                colorFormat = rgbNoAlpha \<and> bytesPerPixel = 3"
    and img: "Stride img = 4 * W" "Bounds img = Rect lx ly (lx + int W) (ly + int H)"
    and insideX: "\<forall>tx < tileCountX g. tx * 64 + tileW g tx \<le> W"
    and insideY: "tileY * 64 + tileH g tileY \<le> H"
    and small: "\<forall>tx. tileW g tx \<le> 64"
  shows "tileX + k = tileCountX g \<Longrightarrow> length pix = 4 * W * H \<Longrightarrow>
     readTiles_row colorFormat bytesPerPixel (Stride img) g tileY tileX k r buffer pix =
       Ok (r', buffer', pix') \<Longrightarrow>
     \<exists>ds. decoded_row bytesPerPixel g tileY tileX k r buffer = Some (ds, r', buffer') \<and>
       length ds = k \<and> length pix' = length pix \<and>
       (\<forall>j < k. tile_shown (img\<lparr>Pix := pix'\<rparr>) lx ly colorFormat ((tileX + j) * 64) (tileY * 64)
                  (tileW g (tileX + j)) (tileH g tileY) (ds ! j)) \<and>
       (\<forall>X < W. \<forall>Y < H. X < tileX * 64 \<or> Y < tileY * 64 \<longrightarrow>
          RGBAAt (img\<lparr>Pix := pix'\<rparr>) (lx + int X) (ly + int Y) =
            RGBAAt (img\<lparr>Pix := pix\<rparr>) (lx + int X) (ly + int Y))"
proof (induction k arbitrary: tileX r buffer pix)
  case 0
  then show ?case by simp
next
  case (Suc k)
  from Suc.prems(3) obtain r1 b1 p1 where
    t: "readTile colorFormat bytesPerPixel (Stride img) g tileY tileX r buffer pix = Ok (r1, b1, p1)"
    and rest: "readTiles_row colorFormat bytesPerPixel (Stride img) g tileY (tileX + 1) k r1 b1 p1 =
        Ok (r', buffer', pix')"
    by (auto split: outcome.splits)
  have tx: "tileX < tileCountX g" using Suc.prems(1) by simp
  then have inX: "tileX * 64 + tileW g tileX \<le> W" using insideX by simp
  note one = readTile_shown [OF fmt img(1) Suc.prems(2) img(2) inX insideY t]
  have len1: "length p1 = 4 * W * H" using one(2) Suc.prems(2) by simp
  have cnt: "tileX + 1 + k = tileCountX g" using Suc.prems(1) by simp
  from Suc.IH [OF cnt len1 rest] obtain ds where
    d: "decoded_row bytesPerPixel g tileY (tileX + 1) k r1 b1 = Some (ds, r', buffer')"
    and lds: "length ds = k" and len: "length pix' = length p1"
    and shown: "\<And>j. j < k \<Longrightarrow>
        tile_shown (img\<lparr>Pix := pix'\<rparr>) lx ly colorFormat ((tileX + 1 + j) * 64) (tileY * 64)
          (tileW g (tileX + 1 + j)) (tileH g tileY) (ds ! j)"
    and keep: "\<And>X Y. X < W \<Longrightarrow> Y < H \<Longrightarrow> X < (tileX + 1) * 64 \<or> Y < tileY * 64 \<Longrightarrow>
        RGBAAt (img\<lparr>Pix := pix'\<rparr>) (lx + int X) (ly + int Y) =
          RGBAAt (img\<lparr>Pix := p1\<rparr>) (lx + int X) (ly + int Y)"
    by blast
  have first: "tile_shown (img\<lparr>Pix := pix'\<rparr>) lx ly colorFormat (tileX * 64) (tileY * 64)
      (tileW g tileX) (tileH g tileY) b1"
  proof (rule tile_shown_transfer [OF one(3)])
    fix row col assume rc: "row < tileH g tileY" "col < tileW g tileX"
    have "tileX * 64 + col < W" "tileY * 64 + row < H" using rc inX insideY by simp_all
    moreover have "tileX * 64 + col < (tileX + 1) * 64"
      using rc(2) small [rule_format, of tileX] by simp
    ultimately show "RGBAAt (img\<lparr>Pix := pix'\<rparr>) (lx + int (tileX * 64 + col))
          (ly + int (tileY * 64 + row)) =
        RGBAAt (img\<lparr>Pix := p1\<rparr>) (lx + int (tileX * 64 + col)) (ly + int (tileY * 64 + row))"
      by (intro keep) simp_all
  qed
  show ?case
  proof (intro exI [of _ "b1 # ds"] conjI allI impI)
    show "decoded_row bytesPerPixel g tileY tileX (Suc k) r buffer = Some (b1 # ds, r', buffer')"
      using one(1) d by simp
    show "length (b1 # ds) = Suc k" using lds by simp
    show "length pix' = length pix" using len one(2) by simp
  next
    fix j assume "j < Suc k"
    show "tile_shown (img\<lparr>Pix := pix'\<rparr>) lx ly colorFormat ((tileX + j) * 64) (tileY * 64)
        (tileW g (tileX + j)) (tileH g tileY) ((b1 # ds) ! j)"
    proof (cases j)
      case 0
      with first show ?thesis by simp
    next
      case (Suc j')
      with \<open>j < Suc k\<close> shown [of j'] show ?thesis by (simp add: add.commute add.left_commute)
    qed
  next
    fix X Y assume XY: "X < W" "Y < H" and o: "X < tileX * 64 \<or> Y < tileY * 64"
    have "RGBAAt (img\<lparr>Pix := pix'\<rparr>) (lx + int X) (ly + int Y) =
        RGBAAt (img\<lparr>Pix := p1\<rparr>) (lx + int X) (ly + int Y)"
      using XY o by (intro keep) auto
    also have "\<dots> = RGBAAt (img\<lparr>Pix := pix\<rparr>) (lx + int X) (ly + int Y)"
      using one(4) XY o by auto
    finally show "RGBAAt (img\<lparr>Pix := pix'\<rparr>) (lx + int X) (ly + int Y) =
        RGBAAt (img\<lparr>Pix := pix\<rparr>) (lx + int X) (ly + int Y)" .
  qed
qed

lemma readTiles_shown:
  assumes fmt: "colorFormat = rgbAlpha \<and> bytesPerPixel = 4 \<or>
                colorFormat = rgbNoAlpha \<and> bytesPerPixel = 3"
    and img: "Stride img = 4 * W" "Bounds img = Rect lx ly (lx + int W) (ly + int H)"
    and insideX: "\<forall>tx < tileCountX g. tx * 64 + tileW g tx \<le> W"
    and insideY: "\<forall>ty < tileCountY g. ty * 64 + tileH g ty \<le> H"
    and smallW: "\<forall>tx. tileW g tx \<le> 64"
    and smallH: "\<forall>ty. tileH g ty \<le> 64"
  shows "tileY + k = tileCountY g \<Longrightarrow> length pix = 4 * W * H \<Longrightarrow>
     readTiles colorFormat bytesPerPixel (Stride img) g tileY k r buffer pix =
       Ok (r', buffer', pix') \<Longrightarrow>
     \<exists>dss. decoded_tiles bytesPerPixel g tileY k r buffer = Some (dss, r', buffer') \<and>
       length dss = k \<and> length pix' = length pix \<and>
       (\<forall>j < k. \<forall>tx < tileCountX g.
          tile_shown (img\<lparr>Pix := pix'\<rparr>) lx ly colorFormat (tx * 64) ((tileY + j) * 64)
            (tileW g tx) (tileH g (tileY + j)) (dss ! j ! tx)) \<and>
       (\<forall>X < W. \<forall>Y < H. Y < tileY * 64 \<longrightarrow>
          RGBAAt (img\<lparr>Pix := pix'\<rparr>) (lx + int X) (ly + int Y) =
            RGBAAt (img\<lparr>Pix := pix\<rparr>) (lx + int X) (ly + int Y))"
proof (induction k arbitrary: tileY r buffer pix)
  case 0
  then show ?case by simp
next
  case (Suc k)
  from Suc.prems(3) obtain r1 b1 p1 where
    t: "readTiles_row colorFormat bytesPerPixel (Stride img) g tileY 0 (tileCountX g) r buffer pix =
        Ok (r1, b1, p1)"
    and rest: "readTiles colorFormat bytesPerPixel (Stride img) g (tileY + 1) k r1 b1 p1 =
        Ok (r', buffer', pix')"
    by (auto split: outcome.splits)
  have ty: "tileY < tileCountY g" using Suc.prems(1) by simp
  then have inY: "tileY * 64 + tileH g tileY \<le> H" using insideY by simp
  from readTiles_row_shown [OF fmt img insideX inY smallW _ Suc.prems(2) t]
  obtain ds where
    d: "decoded_row bytesPerPixel g tileY 0 (tileCountX g) r buffer = Some (ds, r1, b1)"
    and len1: "length p1 = length pix"
    and shown1: "\<And>tx. tx < tileCountX g \<Longrightarrow>
        tile_shown (img\<lparr>Pix := p1\<rparr>) lx ly colorFormat (tx * 64) (tileY * 64)
          (tileW g tx) (tileH g tileY) (ds ! tx)"
    and keep1: "\<And>X Y. X < W \<Longrightarrow> Y < H \<Longrightarrow> Y < tileY * 64 \<Longrightarrow>
        RGBAAt (img\<lparr>Pix := p1\<rparr>) (lx + int X) (ly + int Y) =
          RGBAAt (img\<lparr>Pix := pix\<rparr>) (lx + int X) (ly + int Y)"
    by auto
  have l1: "length p1 = 4 * W * H" using len1 Suc.prems(2) by simp
  have cnt: "tileY + 1 + k = tileCountY g" using Suc.prems(1) by simp
  from Suc.IH [OF cnt l1 rest] obtain dss where
    dd: "decoded_tiles bytesPerPixel g (tileY + 1) k r1 b1 = Some (dss, r', buffer')"
    and ldss: "length dss = k" and len: "length pix' = length p1"
    and shown: "\<And>j tx. j < k \<Longrightarrow> tx < tileCountX g \<Longrightarrow>
        tile_shown (img\<lparr>Pix := pix'\<rparr>) lx ly colorFormat (tx * 64) ((tileY + 1 + j) * 64)
          (tileW g tx) (tileH g (tileY + 1 + j)) (dss ! j ! tx)"
    and keep: "\<And>X Y. X < W \<Longrightarrow> Y < H \<Longrightarrow> Y < (tileY + 1) * 64 \<Longrightarrow>
        RGBAAt (img\<lparr>Pix := pix'\<rparr>) (lx + int X) (ly + int Y) =
          RGBAAt (img\<lparr>Pix := p1\<rparr>) (lx + int X) (ly + int Y)"
    by blast
  have first: "\<And>tx. tx < tileCountX g \<Longrightarrow>
      tile_shown (img\<lparr>Pix := pix'\<rparr>) lx ly colorFormat (tx * 64) (tileY * 64)
        (tileW g tx) (tileH g tileY) (ds ! tx)"
  proof -
    fix tx assume tx: "tx < tileCountX g"
    show "tile_shown (img\<lparr>Pix := pix'\<rparr>) lx ly colorFormat (tx * 64) (tileY * 64)
        (tileW g tx) (tileH g tileY) (ds ! tx)"
    proof (rule tile_shown_transfer [OF shown1 [OF tx]])
      fix row col assume rc: "row < tileH g tileY" "col < tileW g tx"
      have "tx * 64 + col < W" using rc(2) insideX tx by fastforce
      moreover have "tileY * 64 + row < H" using rc(1) inY by simp
      moreover have "tileY * 64 + row < (tileY + 1) * 64"
        using rc(1) smallH [rule_format, of tileY] by simp
      ultimately show "RGBAAt (img\<lparr>Pix := pix'\<rparr>) (lx + int (tx * 64 + col))
            (ly + int (tileY * 64 + row)) =
          RGBAAt (img\<lparr>Pix := p1\<rparr>) (lx + int (tx * 64 + col)) (ly + int (tileY * 64 + row))"
        by (rule keep)
    qed
  qed
  show ?case
  proof (intro exI [of _ "ds # dss"] conjI allI impI)
    show "decoded_tiles bytesPerPixel g tileY (Suc k) r buffer = Some (ds # dss, r', buffer')"
      using d dd by simp
    show "length (ds # dss) = Suc k" using ldss by simp
    show "length pix' = length pix" using len len1 by simp
  next
    fix j tx assume j: "j < Suc k" and tx: "tx < tileCountX g"
    show "tile_shown (img\<lparr>Pix := pix'\<rparr>) lx ly colorFormat (tx * 64) ((tileY + j) * 64)
        (tileW g tx) (tileH g (tileY + j)) ((ds # dss) ! j ! tx)"
    proof (cases j)
      case 0
      with first [OF tx] show ?thesis by simp
    next
      case (Suc j')
      with j shown [of j' tx] tx show ?thesis by (simp add: add.commute add.left_commute)
    qed
  next
    fix X Y assume XY: "X < W" "Y < H" and o: "Y < tileY * 64"
    have "RGBAAt (img\<lparr>Pix := pix'\<rparr>) (lx + int X) (ly + int Y) =
        RGBAAt (img\<lparr>Pix := p1\<rparr>) (lx + int X) (ly + int Y)"
      using XY o by (intro keep) auto
    also have "\<dots> = RGBAAt (img\<lparr>Pix := pix\<rparr>) (lx + int X) (ly + int Y)"
      using XY o by (rule keep1)
    finally show "RGBAAt (img\<lparr>Pix := pix'\<rparr>) (lx + int X) (ly + int Y) =
        RGBAAt (img\<lparr>Pix := pix\<rparr>) (lx + int X) (ly + int Y)" .
  qed
qed

text \<open>
  The tiles of the grid of \<open>readImageData\<close> lie inside the layer: every tile ends within
  the layer's width and height, and no tile is wider or higher than 64. (Where the tile
  count wraps, see C3, the grid has no column or no row, and so no tile.)
\<close>

lemma tileGrid_of_inside_in_range:
  assumes "unat (lh_Width lh) \<le> 2 ^ 32 - 64" and "tileX < tileCountX (tileGrid_of lh)"
  shows "tileX * 64 + tileW (tileGrid_of lh) tileX \<le> unat (lh_Width lh)"
proof -
  define q m where "q = unat (lh_Width lh) div 64" and "m = unat (lh_Width lh) mod 64"
  have W: "unat (lh_Width lh) = 64 * q + m" and m: "m < 64"
    by (simp_all add: q_def m_def)
  have "unat (lh_Width lh + 63) = unat (lh_Width lh) + 63"
    using assms(1) by (simp add: unat_word_ariths)
  then have "tileCountX (tileGrid_of lh) = (64 * q + m + 63) div 64"
    by (simp add: tileGrid_of_def W)
  also have "\<dots> = q + (m + 63) div 64"
    by (simp add: add.assoc)
  also have "(m + 63) div 64 = (if m = 0 then 0 else 1)"
    using m by (auto simp: div_eq_0_iff intro: Euclidean_Rings.div_nat_eqI)
  finally have c: "tileCountX (tileGrid_of lh) = q + (if m = 0 then 0 else 1)" .
  have r: "rightMostTileWidth (tileGrid_of lh) = (if m = 0 then 64 else m)"
    by (simp add: tileGrid_of_def m_def)
  show ?thesis
    using assms(2) m unfolding tileW_def c r W
    by (auto split: if_splits)
qed

lemma tileGrid_of_inside_height_in_range:
  assumes "unat (lh_Height lh) \<le> 2 ^ 32 - 64" and "tileY < tileCountY (tileGrid_of lh)"
  shows "tileY * 64 + tileH (tileGrid_of lh) tileY \<le> unat (lh_Height lh)"
proof -
  define q m where "q = unat (lh_Height lh) div 64" and "m = unat (lh_Height lh) mod 64"
  have W: "unat (lh_Height lh) = 64 * q + m" and m: "m < 64"
    by (simp_all add: q_def m_def)
  have "unat (lh_Height lh + 63) = unat (lh_Height lh) + 63"
    using assms(1) by (simp add: unat_word_ariths)
  then have "tileCountY (tileGrid_of lh) = (64 * q + m + 63) div 64"
    by (simp add: tileGrid_of_def W)
  also have "\<dots> = q + (m + 63) div 64"
    by (simp add: add.assoc)
  also have "(m + 63) div 64 = (if m = 0 then 0 else 1)"
    using m by (auto simp: div_eq_0_iff intro: Euclidean_Rings.div_nat_eqI)
  finally have c: "tileCountY (tileGrid_of lh) = q + (if m = 0 then 0 else 1)" .
  have r: "bottomMostTileHeight (tileGrid_of lh) = (if m = 0 then 64 else m)"
    by (simp add: tileGrid_of_def m_def)
  show ?thesis
    using assms(2) m unfolding tileH_def c r W
    by (auto split: if_splits)
qed

lemma tileGrid_of_wrapped:
  assumes "\<not> unat (w :: u32) \<le> 2 ^ 32 - 64"
  shows "unat (w + 63) div 64 = 0"
proof -
  have lt: "unat w < 2 ^ 32" using unsigned_less [of w] by simp
  have "unat (w + 63) = (unat w + 63) mod 2 ^ 32" by (simp add: unat_word_ariths)
  also have "\<dots> = unat w + 63 - 2 ^ 32"
    using assms lt by (simp add: mod_if)
  finally have "unat (w + 63) < 64" using lt by simp
  then show ?thesis by simp
qed

lemma tileGrid_of_inside:
  assumes "tileX < tileCountX (tileGrid_of lh)"
  shows "tileX * 64 + tileW (tileGrid_of lh) tileX \<le> unat (lh_Width lh)"
proof (cases "unat (lh_Width lh) \<le> 2 ^ 32 - 64")
  case True
  then show ?thesis using assms by (rule tileGrid_of_inside_in_range)
next
  case False
  from tileGrid_of_wrapped [OF this] assms show ?thesis by (simp add: tileGrid_of_def)
qed

lemma tileGrid_of_inside_height:
  assumes "tileY < tileCountY (tileGrid_of lh)"
  shows "tileY * 64 + tileH (tileGrid_of lh) tileY \<le> unat (lh_Height lh)"
proof (cases "unat (lh_Height lh) \<le> 2 ^ 32 - 64")
  case True
  then show ?thesis using assms by (rule tileGrid_of_inside_height_in_range)
next
  case False
  from tileGrid_of_wrapped [OF this] assms show ?thesis by (simp add: tileGrid_of_def)
qed

lemma tileGrid_of_small:
  "tileW (tileGrid_of lh) tileX \<le> 64" "tileH (tileGrid_of lh) tileY \<le> 64"
  by (simp_all add: tileW_def tileH_def tileGrid_of_def)

lemma ReadFull_Inr_pos: "ReadFull r k = (Inr bs, r') \<Longrightarrow> r' = r\<lparr>pos := pos r + k\<rparr>"
  by (auto simp: ReadFull_def split: if_splits)

lemma NewRGBA_Rect:
  assumes "NewRGBA (Rect lx ly (lx + int W) (ly + int H)) = Some rgba"
  shows "Stride rgba = 4 * W" and "length (Pix rgba) = 4 * W * H"
    and "Bounds rgba = Rect lx ly (lx + int W) (ly + int H)"
proof -
  have r: "Rect lx ly (lx + int W) (ly + int H) =
      \<lparr>MinX = lx, MinY = ly, MaxX = lx + int W, MaxY = ly + int H\<rparr>"
    by (simp add: Rect_def)
  have n: "nat (4 * int W * int H) = 4 * W * H" "nat (4 * int W) = 4 * W"
    by (simp_all add: nat_mult_distrib)
  from assms have
    "rgba = \<lparr>Pix = replicate (nat (4 * int W * int H)) 0, Stride = nat (4 * int W),
             Bounds = Rect lx ly (lx + int W) (ly + int H)\<rparr>"
    unfolding r by (simp add: NewRGBA_def Let_def split: if_splits)
  then show "Stride rgba = 4 * W" "length (Pix rgba) = 4 * W * H"
    "Bounds rgba = Rect lx ly (lx + int W) (ly + int H)"
    using n by simp_all
qed

lemma reader_eqI: "content r1 = content r2 \<Longrightarrow> pos r1 = pos r2 \<Longrightarrow> r1 = (r2 :: reader)"
  by simp

lemma sample_readImageData:
  "readImageData \<lparr>content = sample, pos = 126\<rparr> sample_layerHeader 5 (- 2) 126 =
     Ok (Image sample_layer, \<lparr>content = sample, pos = 171\<rparr>)"
  by code_simp

lemma sample_rgb_readImageData:
  "readImageData \<lparr>content = sample_rgb, pos = 0\<rparr>
     sample_rgb_layerHeader 5 (- 2) 0 =
   Ok (Image sample_layer, \<lparr>content = sample_rgb, pos = 43\<rparr>)"
  by code_simp

lemma sample_hierarchies:
  "ReadFull (Seek \<lparr>content = sample, pos = 126\<rparr> (unat (126 :: u32))) 16 =
     (Inr sample_hierarchy, \<lparr>content = sample, pos = 142\<rparr>)"
  "ReadFull (Seek \<lparr>content = sample_rgb, pos = 0\<rparr> (unat (0 :: u32))) 16 =
     (Inr sample_rgb_hierarchy, \<lparr>content = sample_rgb, pos = 16\<rparr>)"
  "lh_ColorFormat sample_layerHeader = rgbAlpha \<and>
     hh_BytesPerPixel (decode_hierarchyHeader sample_hierarchy) = 4 \<or>
   lh_ColorFormat sample_layerHeader = rgbNoAlpha \<and>
     hh_BytesPerPixel (decode_hierarchyHeader sample_hierarchy) = 3"
  "lh_ColorFormat sample_rgb_layerHeader = rgbAlpha \<and>
     hh_BytesPerPixel (decode_hierarchyHeader sample_rgb_hierarchy) = 4 \<or>
   lh_ColorFormat sample_rgb_layerHeader = rgbNoAlpha \<and>
     hh_BytesPerPixel (decode_hierarchyHeader sample_rgb_hierarchy) = 3"
  by code_simp+

text \<open>
  C4. For every image that \<open>readImageData\<close> returns for a layer with alpha and 4 bytes
  per pixel, or without alpha and 3 bytes per pixel: the stream behind the tile pointers
  of the first level decodes, tile after tile, to the planar data of all the tiles of the
  grid, and the image shows each of them at its place. The tile in column \<open>tileX\<close> and row
  \<open>tileY\<close> of the grid starts at the pixel \<open>(layerX + 64 * tileX, layerY + 64 * tileY)\<close> of
  the image and extends over its own width and height; the pixel in column \<open>col\<close> and row
  \<open>row\<close> of the tile has its red, green and blue from the planes 0, 1 and 2 of the tile's
  data, at the scanline-major index \<open>row * w + col\<close> of each plane, and its alpha from
  plane 3 when the layer has alpha, and 255 when it has none. The image's rectangle starts
  at the layer's position and has the layer's width and height.
\<close>

theorem readImageData_deplanarizes:
  assumes rd: "readImageData r layerHeader layerX layerY offset = Ok (img, r')"
    and hd: "ReadFull (Seek r (unat offset)) 16 = (Inr hb, r1)"
    and fmt: "lh_ColorFormat layerHeader = rgbAlpha \<and>
                hh_BytesPerPixel (decode_hierarchyHeader hb) = 4 \<or>
              lh_ColorFormat layerHeader = rgbNoAlpha \<and>
                hh_BytesPerPixel (decode_hierarchyHeader hb) = 3"
  shows "\<exists>tiles buffer'.
     decoded_tiles (unat (hh_BytesPerPixel (decode_hierarchyHeader hb))) (tileGrid_of layerHeader)
       0 (tileCountY (tileGrid_of layerHeader))
       (Seek r (unat (hh_FirstLevelPointer (decode_hierarchyHeader hb)) + 8 +
                4 * (tileCountX (tileGrid_of layerHeader) *
                     tileCountY (tileGrid_of layerHeader) + 1)))
       (replicate (unat (64 * 64 * hh_BytesPerPixel (decode_hierarchyHeader hb))) 0) =
       Some (tiles, r', buffer') \<and>
     Bounds img = Rect layerX layerY (layerX + int (unat (lh_Width layerHeader)))
                    (layerY + int (unat (lh_Height layerHeader))) \<and>
     (\<forall>tileY < tileCountY (tileGrid_of layerHeader).
        \<forall>tileX < tileCountX (tileGrid_of layerHeader).
          tile_shown img layerX layerY (lh_ColorFormat layerHeader) (tileX * 64) (tileY * 64)
            (tileW (tileGrid_of layerHeader) tileX) (tileH (tileGrid_of layerHeader) tileY)
            (tiles ! tileY ! tileX))"
proof -
  let ?header = "decode_hierarchyHeader hb"
  let ?g = "tileGrid_of layerHeader"
  let ?tc = "tileCountX ?g * tileCountY ?g"
  let ?W = "unat (lh_Width layerHeader)" and ?H = "unat (lh_Height layerHeader)"
  let ?cf = "lh_ColorFormat layerHeader"
  let ?bpp = "unat (hh_BytesPerPixel ?header)"
  let ?buffer = "replicate (unat (64 * 64 * hh_BytesPerPixel ?header)) (0 :: byte)"
  let ?p = "unat (hh_FirstLevelPointer ?header)"
  from rd hd obtain r2 where lv: "readImageData_levels r1 = Inr r2"
    by (cases "readImageData_levels r1") (auto simp: readImageData_def Let_def)
  from rd hd lv obtain lw r3 where a: "ReadFull (Seek r2 ?p) 4 = (Inr lw, r3)"
    by (cases "ReadFull (Seek r2 ?p) 4")
       (auto simp: readImageData_def Let_def split: sum.splits)
  from rd hd lv a obtain lhh r4 where b: "ReadFull r3 4 = (Inr lhh, r4)"
    by (cases "ReadFull r3 4") (auto simp: readImageData_def Let_def split: sum.splits)
  from rd hd lv a b obtain tp r5 where c: "ReadFull r4 (4 * (?tc + 1)) = (Inr tp, r5)"
    by (cases "ReadFull r4 (4 * (?tc + 1))")
       (auto simp: readImageData_def Let_def split: sum.splits if_splits)
  from rd hd lv a b c obtain rgba where
    n: "NewRGBA (Rect layerX layerY (layerX + int ?W) (layerY + int ?H)) = Some rgba"
    by (cases "NewRGBA (Rect layerX layerY (layerX + int ?W) (layerY + int ?H))")
       (auto simp: readImageData_def Let_def split: if_splits)
  from rd hd lv a b c n obtain buffer' pix' where
    t: "readTiles ?cf ?bpp (Stride rgba) ?g 0 (tileCountY ?g) r5 ?buffer (Pix rgba) =
          Ok (r', buffer', pix')"
    and i: "img = rgba\<lparr>Pix := pix'\<rparr>"
    by (cases "readTiles ?cf ?bpp (Stride rgba) ?g 0 (tileCountY ?g) r5 ?buffer (Pix rgba)")
       (auto simp: readImageData_def Let_def split: if_splits)
  have c2: "content r2 = content r"
    using ReadFull_content [OF hd] readImageData_levels_content [OF lv] by (simp add: Seek_content)
  have r3: "r3 = (Seek r2 ?p)\<lparr>pos := ?p + 4\<rparr>"
    using ReadFull_Inr_pos [OF a] by (simp add: Seek_def)
  have r4: "r4 = r3\<lparr>pos := pos r3 + 4\<rparr>" by (rule ReadFull_Inr_pos [OF b])
  have r5: "r5 = r4\<lparr>pos := pos r4 + 4 * (?tc + 1)\<rparr>" by (rule ReadFull_Inr_pos [OF c])
  have at: "r5 = Seek r (?p + 8 + 4 * (?tc + 1))"
    by (rule reader_eqI) (simp_all add: r5 r4 r3 Seek_def c2)
  note im = NewRGBA_Rect [OF n]
  have fmt': "?cf = rgbAlpha \<and> ?bpp = 4 \<or> ?cf = rgbNoAlpha \<and> ?bpp = 3"
    using fmt by auto
  have insideX: "\<forall>tx < tileCountX ?g. tx * 64 + tileW ?g tx \<le> ?W"
    by (simp add: tileGrid_of_inside)
  have insideY: "\<forall>ty < tileCountY ?g. ty * 64 + tileH ?g ty \<le> ?H"
    by (simp add: tileGrid_of_inside_height)
  have smallW: "\<forall>tx. tileW ?g tx \<le> 64" and smallH: "\<forall>ty. tileH ?g ty \<le> 64"
    by (simp_all add: tileGrid_of_small)
  from readTiles_shown [OF fmt' im(1,3) insideX insideY smallW smallH _ im(2) t]
  obtain dss where
    d: "decoded_tiles ?bpp ?g 0 (tileCountY ?g) r5 ?buffer = Some (dss, r', buffer')"
    and shown: "\<forall>j < tileCountY ?g. \<forall>tx < tileCountX ?g.
        tile_shown (rgba\<lparr>Pix := pix'\<rparr>) layerX layerY ?cf (tx * 64) ((0 + j) * 64)
          (tileW ?g tx) (tileH ?g (0 + j)) (dss ! j ! tx)"
    by auto
  have bd: "Bounds img = Rect layerX layerY (layerX + int ?W) (layerY + int ?H)"
    using im(3) i by simp
  from d shown bd show ?thesis
    unfolding at i by (intro exI [of _ dss] exI [of _ buffer']) simp
qed

theorem readImageData_deplanarizes_witness:
  "(\<exists>tiles buffer'.
      decoded_tiles (unat (hh_BytesPerPixel (decode_hierarchyHeader sample_hierarchy)))
        (tileGrid_of sample_layerHeader) 0 (tileCountY (tileGrid_of sample_layerHeader))
        (Seek \<lparr>content = sample, pos = 126\<rparr>
           (unat (hh_FirstLevelPointer (decode_hierarchyHeader sample_hierarchy)) + 8 +
            4 * (tileCountX (tileGrid_of sample_layerHeader) *
                 tileCountY (tileGrid_of sample_layerHeader) + 1)))
        (replicate (unat (64 * 64 * hh_BytesPerPixel (decode_hierarchyHeader sample_hierarchy))) 0) =
        Some (tiles, \<lparr>content = sample, pos = 171\<rparr>, buffer') \<and>
      Bounds (Image sample_layer) =
        Rect 5 (- 2) (5 + int (unat (lh_Width sample_layerHeader)))
          (- 2 + int (unat (lh_Height sample_layerHeader))) \<and>
      (\<forall>tileY < tileCountY (tileGrid_of sample_layerHeader).
         \<forall>tileX < tileCountX (tileGrid_of sample_layerHeader).
           tile_shown (Image sample_layer) 5 (- 2) (lh_ColorFormat sample_layerHeader)
             (tileX * 64) (tileY * 64)
             (tileW (tileGrid_of sample_layerHeader) tileX)
             (tileH (tileGrid_of sample_layerHeader) tileY)
             (tiles ! tileY ! tileX))) \<and>
   (\<exists>tiles buffer'.
      decoded_tiles (unat (hh_BytesPerPixel (decode_hierarchyHeader sample_rgb_hierarchy)))
        (tileGrid_of sample_rgb_layerHeader) 0 (tileCountY (tileGrid_of sample_rgb_layerHeader))
        (Seek \<lparr>content = sample_rgb, pos = 0\<rparr>
           (unat (hh_FirstLevelPointer (decode_hierarchyHeader sample_rgb_hierarchy)) + 8 +
            4 * (tileCountX (tileGrid_of sample_rgb_layerHeader) *
                 tileCountY (tileGrid_of sample_rgb_layerHeader) + 1)))
        (replicate (unat (64 * 64 * hh_BytesPerPixel (decode_hierarchyHeader sample_rgb_hierarchy))) 0) =
        Some (tiles, \<lparr>content = sample_rgb, pos = 43\<rparr>, buffer') \<and>
      Bounds (Image sample_layer) =
        Rect 5 (- 2) (5 + int (unat (lh_Width sample_rgb_layerHeader)))
          (- 2 + int (unat (lh_Height sample_rgb_layerHeader))) \<and>
      (\<forall>tileY < tileCountY (tileGrid_of sample_rgb_layerHeader).
         \<forall>tileX < tileCountX (tileGrid_of sample_rgb_layerHeader).
           tile_shown (Image sample_layer) 5 (- 2) (lh_ColorFormat sample_rgb_layerHeader)
             (tileX * 64) (tileY * 64)
             (tileW (tileGrid_of sample_rgb_layerHeader) tileX)
             (tileH (tileGrid_of sample_rgb_layerHeader) tileY)
             (tiles ! tileY ! tileX)))"
  by (rule conjI
      [OF readImageData_deplanarizes [OF sample_readImageData sample_hierarchies(1,3)]
          readImageData_deplanarizes [OF sample_rgb_readImageData sample_hierarchies(2,4)]])

end
